theory Spec2Isabelle
  imports Main
begin

section \<open>The simulation engine of GameOfLife.ts\<close>

text \<open>
  The class \<^verbatim>\<open>GameOfLife\<close> owns a matrix of booleans, its two dimensions and two
  rule sets. Its fields become a record; a method takes the engine and returns either an
  error or its result together with the engine after the call (the engine alone for a
  \<^verbatim>\<open>void\<close> method). Dimensions and coordinates are JavaScript
  numbers that the callers keep integral; they are modelled as integers, and neighbour
  counts as naturals. A JavaScript array has at most \<open>2^32 - 1\<close> elements, and creating
  a longer one raises a RangeError; running out of memory below that length is not
  modelled. The conversion of a number to a string is modelled for the safe integers
  (below \<open>2^53\<close>) only.
  A \<^verbatim>\<open>Set<number>\<close> iterates in insertion order, so a rule set is the list of its
  elements in that order, without repetition.
\<close>

record engine =
  grid :: "bool list list"
  rows :: int
  cols :: int
  birthRule :: "nat list"
  survivalRule :: "nat list"

text \<open>
  Indexing a JavaScript array outside its length does not fail by itself: a read gives
  \<^verbatim>\<open>undefined\<close> and a write extends the array. Reading \<^verbatim>\<open>m[row][col]\<close> where
  \<^verbatim>\<open>m[row]\<close> is undefined throws a TypeError. In both cases the matrix stops being a
  matrix of booleans, so the model reports both as errors: \<open>TypeError\<close> for a missing
  row, \<open>NotBoolean\<close> for a missing column of a present row. \<open>RangeError\<close> is what
  the array constructor raises for a length of \<open>2^32\<close> or more.
\<close>

datatype error = TypeError | RangeError | NotBoolean

definition read_cell :: "bool list list \<Rightarrow> int \<Rightarrow> int \<Rightarrow> error + bool" where
  "read_cell m row col =
     (if row < 0 \<or> int (length m) \<le> row then Inl TypeError
      else if col < 0 \<or> int (length (m ! nat row)) \<le> col then Inl NotBoolean
      else Inr (m ! nat row ! nat col))"

definition write_cell :: "bool list list \<Rightarrow> int \<Rightarrow> int \<Rightarrow> bool \<Rightarrow> error + bool list list" where
  "write_cell m row col v =
     (if row < 0 \<or> int (length m) \<le> row then Inl TypeError
      else if col < 0 \<or> int (length (m ! nat row)) \<le> col then Inl NotBoolean
      else Inr (m[nat row := (m ! nat row)[nat col := v]]))"

text \<open>
  \<^verbatim>\<open>for (let i = start; i < n; i++) body\<close>, with the loop's variables as the state
  \<open>s\<close>; an error thrown by the body leaves the loop.
\<close>

function for_loop :: "int \<Rightarrow> int \<Rightarrow> (int \<Rightarrow> 's \<Rightarrow> error + 's) \<Rightarrow> 's \<Rightarrow> error + 's" where
  "for_loop i n body s =
     (if i < n
      then (case body i s of Inl e \<Rightarrow> Inl e | Inr s' \<Rightarrow> for_loop (i + 1) n body s')
      else Inr s)"
  by pat_completeness auto
termination
  by (relation "measure (\<lambda>(i, n, body, s). nat (n - i))") auto

declare for_loop.simps [simp del]

subsection \<open>Construction and rules\<close>

text \<open>
  \<^verbatim>\<open>Array.from({ length: n }, mapFn)\<close> takes \<open>len = ToLength(n)\<close>, which clamps \<open>n\<close>
  to the range from 0 to \<open>2^53 - 1\<close>, and constructs \<^verbatim>\<open>new Array(len)\<close>, which raises a
  RangeError unless \<open>len < 2^32\<close>. It then calls \<open>mapFn\<close> for the indices
  \<open>0, \<dots>, len - 1\<close> in order; an error raised by a call leaves the construction.
\<close>

definition ToLength :: "int \<Rightarrow> nat" where
  "ToLength n = nat (min n (2 ^ 53 - 1))"

fun collect :: "(error + 'a) list \<Rightarrow> error + 'a list" where
  "collect [] = Inr []"
| "collect (x # xs) =
     (case x of
        Inl e \<Rightarrow> Inl e
      | Inr v \<Rightarrow> (case collect xs of Inl e \<Rightarrow> Inl e | Inr vs \<Rightarrow> Inr (v # vs)))"

definition Array_from :: "int \<Rightarrow> (nat \<Rightarrow> error + 'a) \<Rightarrow> error + 'a list" where
  "Array_from n mapFn =
     (let len = ToLength n
      in if 2 ^ 32 \<le> len then Inl RangeError
         else collect (map mapFn [0..<len]))"

definition createEmptyGrid :: "engine \<Rightarrow> error + bool list list" where
  "createEmptyGrid g =
     Array_from (rows g) (\<lambda>_. Array_from (cols g) (\<lambda>_. Inr False))"

text \<open>
  The field initialisers set the default rules, then the constructor stores the
  dimensions and builds the grid.
\<close>

definition GameOfLife :: "int \<Rightarrow> int \<Rightarrow> error + engine" where
  "GameOfLife r c =
     (let g = \<lparr>grid = [], rows = r, cols = c, birthRule = [3], survivalRule = [2, 3]\<rparr>
      in case createEmptyGrid g of
           Inl e \<Rightarrow> Inl e
         | Inr m \<Rightarrow> Inr (g\<lparr>grid := m\<rparr>))"

text \<open>\<^verbatim>\<open>new Set(counts)\<close> adds the elements in order and keeps the first occurrence of each.\<close>

fun new_Set :: "nat list \<Rightarrow> nat list \<Rightarrow> nat list" where
  "new_Set acc [] = acc"
| "new_Set acc (x # xs) = new_Set (if x \<in> set acc then acc else acc @ [x]) xs"

definition setBirthRule :: "nat list \<Rightarrow> engine \<Rightarrow> error + engine" where
  "setBirthRule counts g = Inr (g\<lparr>birthRule := new_Set [] counts\<rparr>)"

definition setSurvivalRule :: "nat list \<Rightarrow> engine \<Rightarrow> error + engine" where
  "setSurvivalRule counts g = Inr (g\<lparr>survivalRule := new_Set [] counts\<rparr>)"

text \<open>
  \<^verbatim>\<open>Array.from(set).sort()\<close> is called without a comparison function, so the elements are
  ordered by their string conversions, compared code unit by code unit (ECMAScript
  \<^verbatim>\<open>SortCompare\<close>). A non-negative integer below \<open>2^53\<close> converts to its decimal
  digits. A larger number converts to the shortest digits that identify it (padded with
  zeros, or in exponent form from \<open>10^21\<close>); the model makes no statement about those
  and returns \<open>None\<close> when a rule set holds one. The order of the result is fixed by the
  comparison, whatever algorithm the engine runs; the model inserts each element, from
  the last to the first, before the first element that is not smaller, which keeps
  equal elements in their order.
\<close>

definition digit_char :: "nat \<Rightarrow> char" where
  "digit_char d = ''0123456789'' ! d"

function decimal :: "nat \<Rightarrow> string" where
  "decimal n =
     (if n < 10 then [digit_char n]
      else decimal (n div 10) @ [digit_char (n mod 10)])"
  by pat_completeness auto
termination
  by (relation "measure (\<lambda>n. n)") auto

declare decimal.simps [simp del]

definition Number_toString :: "nat \<Rightarrow> string option" where
  "Number_toString n = (if n < 2 ^ 53 then Some (decimal n) else None)"

fun string_less :: "string \<Rightarrow> string \<Rightarrow> bool" where
  "string_less [] [] = False"
| "string_less [] (y # ys) = True"
| "string_less (x # xs) [] = False"
| "string_less (x # xs) (y # ys) =
     (if x = y then string_less xs ys else (of_char x :: nat) < of_char y)"

text \<open>The comparison of two elements, given their string conversions.\<close>

definition SortCompare :: "string \<Rightarrow> string \<Rightarrow> int" where
  "SortCompare xString yString =
     (if string_less xString yString then - 1
      else if string_less yString xString then 1
      else 0)"

fun sort_insert :: "string \<times> nat \<Rightarrow> (string \<times> nat) list \<Rightarrow> (string \<times> nat) list" where
  "sort_insert x [] = [x]"
| "sort_insert x (y # ys) =
     (if SortCompare (fst x) (fst y) \<le> 0 then x # y # ys else y # sort_insert x ys)"

definition Array_sort :: "nat list \<Rightarrow> nat list option" where
  "Array_sort xs =
     (case those (map Number_toString xs) of
        None \<Rightarrow> None
      | Some strings \<Rightarrow> Some (map snd (foldr sort_insert (zip strings xs) [])))"

definition getBirthRule :: "engine \<Rightarrow> (error + (nat list \<times> engine)) option" where
  "getBirthRule g = map_option (\<lambda>counts. Inr (counts, g)) (Array_sort (birthRule g))"

definition getSurvivalRule :: "engine \<Rightarrow> (error + (nat list \<times> engine)) option" where
  "getSurvivalRule g = map_option (\<lambda>counts. Inr (counts, g)) (Array_sort (survivalRule g))"

subsection \<open>Cell access and mutation\<close>

definition getCell :: "int \<Rightarrow> int \<Rightarrow> engine \<Rightarrow> error + (bool \<times> engine)" where
  "getCell row col g =
     (if row < 0 \<or> row \<ge> rows g \<or> col < 0 \<or> col \<ge> cols g then Inr (False, g)
      else (case read_cell (grid g) row col of
              Inl e \<Rightarrow> Inl e
            | Inr b \<Rightarrow> Inr (b, g)))"

definition setCell :: "int \<Rightarrow> int \<Rightarrow> bool \<Rightarrow> engine \<Rightarrow> error + engine" where
  "setCell row col alive g =
     (if row \<ge> 0 \<and> row < rows g \<and> col \<ge> 0 \<and> col < cols g
      then (case write_cell (grid g) row col alive of
              Inl e \<Rightarrow> Inl e
            | Inr m \<Rightarrow> Inr (g\<lparr>grid := m\<rparr>))
      else Inr g)"

definition toggleCell :: "int \<Rightarrow> int \<Rightarrow> engine \<Rightarrow> error + engine" where
  "toggleCell row col g =
     (if row \<ge> 0 \<and> row < rows g \<and> col \<ge> 0 \<and> col < cols g
      then (case read_cell (grid g) row col of
              Inl e \<Rightarrow> Inl e
            | Inr b \<Rightarrow>
                (case write_cell (grid g) row col (\<not> b) of
                   Inl e \<Rightarrow> Inl e
                 | Inr m \<Rightarrow> Inr (g\<lparr>grid := m\<rparr>)))
      else Inr g)"

subsection \<open>Neighbour counting and the generation step\<close>

text \<open>
  The two loops of \<^verbatim>\<open>countNeighbors\<close> run while \<^verbatim>\<open>dr <= 1\<close> and \<^verbatim>\<open>dc <= 1\<close>, which on
  integers is \<open>dr < 2\<close> and \<open>dc < 2\<close>. The loop state is the counter together with the
  engine, which every call of \<^verbatim>\<open>this.getCell\<close> hands back.
\<close>

definition countNeighbors :: "int \<Rightarrow> int \<Rightarrow> engine \<Rightarrow> error + (nat \<times> engine)" where
  "countNeighbors row col g =
     for_loop (- 1) 2 (\<lambda>dr.
       for_loop (- 1) 2 (\<lambda>dc (count, g).
         if dr = 0 \<and> dc = 0 then Inr (count, g)
         else
           let newRow = row + dr; newCol = col + dc
           in (case getCell newRow newCol g of
                 Inl e \<Rightarrow> Inl e
               | Inr (b, g') \<Rightarrow> Inr (if b then count + 1 else count, g'))))
       (0, g)"

definition nextGeneration :: "engine \<Rightarrow> error + engine" where
  "nextGeneration g =
     (case createEmptyGrid g of
        Inl e \<Rightarrow> Inl e
      | Inr newGrid \<Rightarrow>
          (case
             for_loop 0 (rows g) (\<lambda>row.
               for_loop 0 (cols g) (\<lambda>col (newGrid, g).
                 case countNeighbors row col g of
                   Inl e \<Rightarrow> Inl e
                 | Inr (neighbors, g) \<Rightarrow>
                     (case read_cell (grid g) row col of
                        Inl e \<Rightarrow> Inl e
                      | Inr isAlive \<Rightarrow>
                          (case write_cell newGrid row col
                                  (if isAlive then neighbors \<in> set (survivalRule g)
                                   else neighbors \<in> set (birthRule g)) of
                             Inl e \<Rightarrow> Inl e
                           | Inr newGrid' \<Rightarrow> Inr (newGrid', g)))))
               (newGrid, g)
           of
             Inl e \<Rightarrow> Inl e
           | Inr (newGrid, g) \<Rightarrow> Inr (g\<lparr>grid := newGrid\<rparr>)))"

subsection \<open>Bulk operations and queries\<close>

definition clear :: "engine \<Rightarrow> error + engine" where
  "clear g =
     (case createEmptyGrid g of
        Inl e \<Rightarrow> Inl e
      | Inr m \<Rightarrow> Inr (g\<lparr>grid := m\<rparr>))"

text \<open>
  Both stamping methods run the same two loops over their literal: every non-zero entry
  calls \<^verbatim>\<open>setCell\<close> with the offset added.
\<close>

definition stamp :: "nat list list \<Rightarrow> int \<Rightarrow> int \<Rightarrow> engine \<Rightarrow> error + engine" where
  "stamp pattern startRow startCol g =
     for_loop 0 (int (length pattern)) (\<lambda>row.
       for_loop 0 (int (length (pattern ! nat row))) (\<lambda>col g.
         if pattern ! nat row ! nat col \<noteq> 0
         then setCell (startRow + row) (startCol + col) True g
         else Inr g))
       g"

definition glider :: "nat list list" where
  "glider =
     [ [0, 1, 0],
      [0, 0, 1],
      [1, 1, 1]]"

definition addGlider :: "int \<Rightarrow> int \<Rightarrow> engine \<Rightarrow> error + engine" where
  "addGlider startRow startCol g = stamp glider startRow startCol g"

definition gun_pattern :: "nat list list" where
  "gun_pattern =
     [ [0,0,0,0,0,0,0,0,0,0,0,0,0,0,0,0,0,0,0,0,0,0,0,0,1,0,0,0,0,0,0,0,0,0,0,0],
      [0,0,0,0,0,0,0,0,0,0,0,0,0,0,0,0,0,0,0,0,0,0,1,0,1,0,0,0,0,0,0,0,0,0,0,0],
      [0,0,0,0,0,0,0,0,0,0,0,0,1,1,0,0,0,0,0,0,1,1,0,0,0,0,0,0,0,0,0,0,0,0,1,1],
      [0,0,0,0,0,0,0,0,0,0,0,1,0,0,0,1,0,0,0,0,1,1,0,0,0,0,0,0,0,0,0,0,0,0,1,1],
      [1,1,0,0,0,0,0,0,0,0,1,0,0,0,0,0,1,0,0,0,1,1,0,0,0,0,0,0,0,0,0,0,0,0,0,0],
      [1,1,0,0,0,0,0,0,0,0,1,0,0,0,1,0,1,1,0,0,0,0,1,0,1,0,0,0,0,0,0,0,0,0,0,0],
      [0,0,0,0,0,0,0,0,0,0,1,0,0,0,0,0,1,0,0,0,0,0,0,0,1,0,0,0,0,0,0,0,0,0,0,0],
      [0,0,0,0,0,0,0,0,0,0,0,1,0,0,0,1,0,0,0,0,0,0,0,0,0,0,0,0,0,0,0,0,0,0,0,0],
      [0,0,0,0,0,0,0,0,0,0,0,0,1,1,0,0,0,0,0,0,0,0,0,0,0,0,0,0,0,0,0,0,0,0,0,0]]"

definition addGliderGun :: "int \<Rightarrow> int \<Rightarrow> engine \<Rightarrow> error + engine" where
  "addGliderGun startRow startCol g = stamp gun_pattern startRow startCol g"

definition getPopulation :: "engine \<Rightarrow> error + (nat \<times> engine)" where
  "getPopulation g =
     for_loop 0 (rows g) (\<lambda>row.
       for_loop 0 (cols g) (\<lambda>col (count, g).
         case read_cell (grid g) row col of
           Inl e \<Rightarrow> Inl e
         | Inr b \<Rightarrow> Inr (if b then count + 1 else count, g)))
       (0, g)"

subsection \<open>Notions used to state the properties\<close>

text \<open>
  The constructor builds a matrix of \<open>rows\<close> rows of \<open>cols\<close> cells and the field
  \<^verbatim>\<open>grid\<close> is private, so every engine a caller can hold is rectangular.
\<close>

definition rectangular :: "engine \<Rightarrow> bool" where
  "rectangular g = (length (grid g) = nat (rows g) \<and> (\<forall>r \<in> set (grid g). length r = nat (cols g)))"

text \<open>
  The grid and its rows are JavaScript arrays, so each holds fewer than \<open>2^32\<close>
  elements. This is what lets \<^verbatim>\<open>createEmptyGrid\<close> build a grid of the same dimensions
  again.
\<close>

definition array_sized :: "engine \<Rightarrow> bool" where
  "array_sized g = (length (grid g) < 2 ^ 32 \<and> (\<forall>r \<in> set (grid g). length r < 2 ^ 32))"

text \<open>
  The grid of dead cells with the dimensions of an engine, and the engine that the
  constructor returns when it succeeds.
\<close>

definition empty_grid :: "engine \<Rightarrow> bool list list" where
  "empty_grid g = replicate (nat (rows g)) (replicate (nat (cols g)) False)"

definition fresh :: "int \<Rightarrow> int \<Rightarrow> engine" where
  "fresh r c =
     \<lparr>grid = replicate (nat r) (replicate (nat c) False), rows = r, cols = c,
      birthRule = [3], survivalRule = [2, 3]\<rparr>"

text \<open>
  The state of a cell as the specification sees it: a coordinate outside the grid is
  dead, a coordinate inside has the stored value.
\<close>

definition alive :: "engine \<Rightarrow> int \<Rightarrow> int \<Rightarrow> bool" where
  "alive g row col =
     (0 \<le> row \<and> row < rows g \<and> 0 \<le> col \<and> col < cols g \<and> grid g ! nat row ! nat col)"

text \<open>
  The live count of the Moore neighbourhood: the eight offsets
  \<open>(dr, dc) \<in> {-1, 0, 1}\<^sup>2\<close> other than \<open>(0, 0)\<close>, each counted when the cell there is alive.
\<close>

definition moore_offsets :: "(int \<times> int) list" where
  "moore_offsets = [(dr, dc). dr \<leftarrow> [- 1, 0, 1], dc \<leftarrow> [- 1, 0, 1], (dr, dc) \<noteq> (0, 0)]"

definition moore_count :: "engine \<Rightarrow> int \<Rightarrow> int \<Rightarrow> nat" where
  "moore_count g row col =
     length (filter (\<lambda>(dr, dc). alive g (row + dr) (col + dc)) moore_offsets)"

text \<open>
  The rule of a generation step for one cell, and the grid it gives when applied to every
  cell of the grid before the step.
\<close>

definition next_state :: "engine \<Rightarrow> int \<Rightarrow> int \<Rightarrow> bool" where
  "next_state g row col =
     (if alive g row col then moore_count g row col \<in> set (survivalRule g)
      else moore_count g row col \<in> set (birthRule g))"

definition next_grid :: "engine \<Rightarrow> bool list list" where
  "next_grid g =
     map (\<lambda>r. map (\<lambda>c. next_state g (int r) (int c)) [0..<nat (cols g)]) [0..<nat (rows g)]"

text \<open>
  The invariant of the loops of \<^verbatim>\<open>nextGeneration\<close>: the engine is untouched, the new grid
  has the dimensions of the engine, and the cells already visited (rows before \<open>row\<close>,
  and columns before \<open>j\<close> in row \<open>row\<close>) hold their next state.
\<close>

definition shaped :: "engine \<Rightarrow> bool list list \<Rightarrow> bool" where
  "shaped g m = (length m = nat (rows g) \<and> (\<forall>r \<in> set m. length r = nat (cols g)))"

definition gen_inv :: "engine \<Rightarrow> int \<Rightarrow> int \<Rightarrow> bool list list \<times> engine \<Rightarrow> bool" where
  "gen_inv g row j s =
     (snd s = g \<and> shaped g (fst s) \<and>
      (\<forall>r c. r < nat (rows g) \<longrightarrow> c < nat (cols g) \<longrightarrow>
         (int r < row \<or> (int r = row \<and> int c < j)) \<longrightarrow>
         fst s ! r ! c = next_state g (int r) (int c)))"

text \<open>
  The number of live cells stored in the grid, row by row, and the invariant of the loops
  of \<^verbatim>\<open>getPopulation\<close>.
\<close>

definition live_in :: "bool list \<Rightarrow> nat" where
  "live_in r = length (filter (\<lambda>b. b) r)"

definition population :: "engine \<Rightarrow> nat" where
  "population g = sum_list (map live_in (grid g))"

definition pop_inv :: "engine \<Rightarrow> int \<Rightarrow> int \<Rightarrow> nat \<times> engine \<Rightarrow> bool" where
  "pop_inv g row j s =
     (snd s = g \<and>
      fst s = sum_list (map live_in (take (nat row) (grid g))) +
              live_in (take (nat j) (grid g ! nat row)))"

text \<open>
  A coordinate is covered by a pattern stamped at an offset when a non-zero entry of the
  pattern lands on it. The invariant of the stamping loops says that the entries
  visited so far have been added to the live cells and nothing else has changed.
\<close>

definition in_bounds :: "engine \<Rightarrow> int \<Rightarrow> int \<Rightarrow> bool" where
  "in_bounds g row col = (0 \<le> row \<and> row < rows g \<and> 0 \<le> col \<and> col < cols g)"

definition covered :: "nat list list \<Rightarrow> int \<Rightarrow> int \<Rightarrow> int \<Rightarrow> int \<Rightarrow> bool" where
  "covered pattern startRow startCol row col =
     (0 \<le> row - startRow \<and> row - startRow < int (length pattern) \<and>
      0 \<le> col - startCol \<and>
      col - startCol < int (length (pattern ! nat (row - startRow))) \<and>
      pattern ! nat (row - startRow) ! nat (col - startCol) \<noteq> 0)"

definition stamp_inv ::
  "nat list list \<Rightarrow> int \<Rightarrow> int \<Rightarrow> engine \<Rightarrow> int \<Rightarrow> int \<Rightarrow> engine \<Rightarrow> bool" where
  "stamp_inv pattern startRow startCol g i j g' =
     (rectangular g' \<and> (\<exists>m. g' = g\<lparr>grid := m\<rparr>) \<and>
      (\<forall>r c. alive g' r c =
         (alive g r c \<or>
          in_bounds g r c \<and> covered pattern startRow startCol r c \<and>
          (r - startRow < i \<or> r - startRow = i \<and> c - startCol < j))))"

text \<open>
  Conway's rule B3/S23 on a finite set of live cells of the unbounded plane, given as a
  list of coordinates. It is used to follow the glider through its four phases, which
  all stay within rows and columns 1 to 4.
\<close>

definition life_count :: "(int \<times> int) list \<Rightarrow> int \<Rightarrow> int \<Rightarrow> nat" where
  "life_count P row col =
     length (filter (\<lambda>(dr, dc). (row + dr, col + dc) \<in> set P) moore_offsets)"

definition conway :: "(int \<times> int) list \<Rightarrow> int \<Rightarrow> int \<Rightarrow> bool" where
  "conway P row col =
     (if (row, col) \<in> set P then life_count P row col \<in> {2, 3}
      else life_count P row col = 3)"

definition in_box :: "(int \<times> int) list \<Rightarrow> bool" where
  "in_box P = list_all (\<lambda>(r, c). 1 \<le> r \<and> r \<le> 4 \<and> 1 \<le> c \<and> c \<le> 4) P"

definition conway_near :: "(int \<times> int) list \<Rightarrow> (int \<times> int) list \<Rightarrow> bool" where
  "conway_near P P' =
     list_all (\<lambda>r. list_all (\<lambda>c. conway P r c = ((r, c) \<in> set P')) [0..5]) [0..5]"

text \<open>A small engine with live cells, used to run the theorems on a concrete state.\<close>

definition sample :: engine where
  "sample =
     \<lparr>grid = [ [True, False, False],
              [False, True, True]],
      rows = 2, cols = 3, birthRule = [3], survivalRule = [2, 3]\<rparr>"

section \<open>Building arrays\<close>

lemma collect_values: "collect (map (\<lambda>_. Inr v) xs) = Inr (replicate (length xs) v)"
  by (induction xs) simp_all

lemma collect_error: "xs \<noteq> [] \<Longrightarrow> collect (map (\<lambda>_. Inl e) xs) = Inl e"
  by (cases xs) simp_all

lemma ToLength_cases:
  "(2 ^ 32 \<le> n \<and> 2 ^ 32 \<le> ToLength n) \<or> (n < 2 ^ 32 \<and> \<not> 2 ^ 32 \<le> ToLength n \<and> ToLength n = nat n)"
  by (auto simp: ToLength_def min_def)

lemma Array_from_values:
  "Array_from n (\<lambda>_. Inr v) =
     (if 2 ^ 32 \<le> n then Inl RangeError else Inr (replicate (nat n) v))"
  using ToLength_cases[of n] by (auto simp: Array_from_def Let_def collect_values)

lemma Array_from_error:
  "Array_from n (\<lambda>_. Inl e) =
     (if 2 ^ 32 \<le> n then Inl RangeError else if 0 < n then Inl e else Inr [])"
  using ToLength_cases[of n] by (auto simp: Array_from_def Let_def collect_error)

lemma createEmptyGrid_eq:
  "createEmptyGrid g =
     (if 2 ^ 32 \<le> rows g \<or> 0 < rows g \<and> 2 ^ 32 \<le> cols g then Inl RangeError
      else Inr (empty_grid g))"
proof (cases "(2 ^ 32 :: int) \<le> cols g")
  case True
  then have "createEmptyGrid g = Array_from (rows g) (\<lambda>_. Inl RangeError)"
    by (simp add: createEmptyGrid_def Array_from_values)
  then show ?thesis using True by (simp add: Array_from_error empty_grid_def)
next
  case False
  then have "createEmptyGrid g =
          Array_from (rows g) (\<lambda>_. Inr (replicate (nat (cols g)) False))"
    by (simp add: createEmptyGrid_def Array_from_values)
  then show ?thesis using False by (simp add: Array_from_values empty_grid_def)
qed

lemma GameOfLife_eq:
  "GameOfLife r c =
     (if 2 ^ 32 \<le> r \<or> 0 < r \<and> 2 ^ 32 \<le> c then Inl RangeError else Inr (fresh r c))"
  by (simp add: GameOfLife_def Let_def createEmptyGrid_eq empty_grid_def fresh_def)

lemma rectangular_dims:
  assumes "rectangular g" and "array_sized g"
  shows "rows g < 2 ^ 32" and "0 < rows g \<Longrightarrow> cols g < 2 ^ 32"
proof -
  have "length (grid g) < 2 ^ 32" "length (grid g) = nat (rows g)"
    using assms by (simp_all add: rectangular_def array_sized_def)
  then have "nat (rows g) < 2 ^ 32" by simp
  then show "rows g < 2 ^ 32" by simp
  assume "0 < rows g"
  then have "grid g \<noteq> []" using assms(1) by (auto simp: rectangular_def)
  then have "hd (grid g) \<in> set (grid g)" by simp
  then have "nat (cols g) < 2 ^ 32" using assms by (auto simp: rectangular_def array_sized_def)
  then show "cols g < 2 ^ 32" by simp
qed

lemma createEmptyGrid_rectangular:
  "rectangular g \<Longrightarrow> array_sized g \<Longrightarrow> createEmptyGrid g = Inr (empty_grid g)"
  using rectangular_dims[of g] by (auto simp: createEmptyGrid_eq)

lemma array_sized_same_dims:
  assumes "rectangular g" and "array_sized g" and "rectangular g'"
    and "rows g' = rows g" and "cols g' = cols g"
  shows "array_sized g'"
proof -
  have len: "length (grid g') = nat (rows g)" using assms(3,4) by (simp add: rectangular_def)
  have "nat (rows g) < 2 ^ 32" using rectangular_dims(1)[OF assms(1,2)] by simp
  then have "length (grid g') < 2 ^ 32" by (simp only: len)
  moreover have "length r < 2 ^ 32" if "r \<in> set (grid g')" for r
  proof -
    have "length (grid g') \<noteq> 0" using that by auto
    then have pos: "nat (rows g) \<noteq> 0" unfolding len .
    have "0 < rows g"
    proof (rule ccontr)
      assume "\<not> 0 < rows g"
      then have "nat (rows g) = 0" by simp
      with pos show False by simp
    qed
    then have "cols g < 2 ^ 32" by (rule rectangular_dims(2)[OF assms(1,2)])
    moreover have "length r = nat (cols g)" using assms(3,5) that by (simp add: rectangular_def)
    ultimately show ?thesis by simp
  qed
  ultimately show ?thesis by (simp add: array_sized_def)
qed

section \<open>Loops and the shape of the grid\<close>

lemma for_loop_invariant:
  assumes "I i s"
    and "\<And>j t. i \<le> j \<Longrightarrow> j < n \<Longrightarrow> I j t \<Longrightarrow> \<exists>t'. body j t = Inr t' \<and> I (j + 1) t'"
  shows "\<exists>s'. for_loop i n body s = Inr s' \<and> I (max i n) s'"
  using assms
proof (induction i n body s rule: for_loop.induct)
  case (1 i n body s)
  show ?case
  proof (cases "i < n")
    case False
    with "1.prems"(1) show ?thesis by (simp add: for_loop.simps max_def)
  next
    case True
    from "1.prems"(2)[OF _ True "1.prems"(1)] obtain t where t: "body i s = Inr t" "I (i + 1) t"
      by auto
    have "\<exists>s'. for_loop (i + 1) n body t = Inr s' \<and> I (max (i + 1) n) s'"
      by (rule "1.IH"[OF True t(1) t(2)]) (use "1.prems"(2) in auto)
    moreover have "max (i + 1) n = max i n" using True by simp
    ultimately show ?thesis using True t(1) by (subst for_loop.simps) simp
  qed
qed

lemma read_cell_rectangular:
  "rectangular g \<Longrightarrow> 0 \<le> row \<Longrightarrow> row < rows g \<Longrightarrow> 0 \<le> col \<Longrightarrow> col < cols g \<Longrightarrow>
   read_cell (grid g) row col = Inr (grid g ! nat row ! nat col)"
  by (auto simp: rectangular_def read_cell_def)

lemma getCell_rectangular: "rectangular g \<Longrightarrow> getCell row col g = Inr (alive g row col, g)"
  by (auto simp: getCell_def alive_def read_cell_rectangular)

lemma for_loop_3:
  "for_loop (- 1) 2 body s =
     (case body (- 1) s of Inl e \<Rightarrow> Inl e | Inr s1 \<Rightarrow>
        (case body 0 s1 of Inl e \<Rightarrow> Inl e | Inr s2 \<Rightarrow> body 1 s2))"
  by (simp add: for_loop.simps split: sum.splits)

lemma countNeighbors_rectangular: "rectangular g \<Longrightarrow> countNeighbors row col g = Inr (moore_count g row col, g)"
  by (simp add: countNeighbors_def for_loop_3 getCell_rectangular moore_count_def moore_offsets_def)

lemma shaped_nth: "shaped g m \<Longrightarrow> r < nat (rows g) \<Longrightarrow> length (m ! r) = nat (cols g)"
  by (simp add: shaped_def)

lemma shaped_update:
  assumes "shaped g m"
  shows "shaped g (m[r := (m ! r)[c := v]])"
proof -
  have "\<forall>x \<in> set (m[r := (m ! r)[c := v]]). length x = nat (cols g)"
  proof
    fix x assume "x \<in> set (m[r := (m ! r)[c := v]])"
    then have "x \<in> insert ((m ! r)[c := v]) (set m)"
      using set_update_subset_insert by fastforce
    moreover have "r < length m \<Longrightarrow> length (m ! r) = nat (cols g)"
      using assms by (simp add: shaped_def)
    moreover have "\<not> r < length m \<Longrightarrow> m[r := (m ! r)[c := v]] = m" by (simp add: list_update_beyond)
    ultimately show "length x = nat (cols g)"
      using assms \<open>x \<in> set (m[r := (m ! r)[c := v]])\<close> by (cases "r < length m") (auto simp: shaped_def)
  qed
  then show ?thesis using assms by (simp add: shaped_def)
qed

lemma write_cell_shaped:
  "shaped g m \<Longrightarrow> 0 \<le> row \<Longrightarrow> row < rows g \<Longrightarrow> 0 \<le> col \<Longrightarrow> col < cols g \<Longrightarrow>
   write_cell m row col v = Inr (m[nat row := (m ! nat row)[nat col := v]])"
  by (auto simp: shaped_def write_cell_def)

lemma update2_nth:
  "shaped g m \<Longrightarrow> r < nat (rows g) \<Longrightarrow> c < nat (cols g) \<Longrightarrow> r' < nat (rows g) \<Longrightarrow> c' < nat (cols g) \<Longrightarrow>
   m[r := (m ! r)[c := v]] ! r' ! c' = (if r' = r \<and> c' = c then v else m ! r' ! c')"
  by (auto simp: shaped_def nth_list_update)

lemma shaped_empty_grid: "shaped g (empty_grid g)"
  by (simp add: shaped_def empty_grid_def)

lemma shaped_grid: "rectangular g \<Longrightarrow> shaped g (grid g)"
  by (simp add: rectangular_def shaped_def)

lemma gen_inner_step:
  assumes g: "rectangular g" and row: "0 \<le> row" "row < rows g" and j: "0 \<le> j" "j < cols g"
    and inv: "gen_inv g row j t"
  shows "\<exists>t'. (\<lambda>col (newGrid, g).
            case countNeighbors row col g of
              Inl e \<Rightarrow> Inl e
            | Inr (neighbors, g) \<Rightarrow>
                (case read_cell (grid g) row col of
                   Inl e \<Rightarrow> Inl e
                 | Inr isAlive \<Rightarrow>
                     (case write_cell newGrid row col
                             (if isAlive then neighbors \<in> set (survivalRule g)
                              else neighbors \<in> set (birthRule g)) of
                        Inl e \<Rightarrow> Inl e
                      | Inr newGrid' \<Rightarrow> Inr (newGrid', g)))) j t = Inr t' \<and> gen_inv g row (j + 1) t'"
proof -
  obtain m where t: "t = (m, g)" using inv by (cases t) (simp add: gen_inv_def)
  have sh: "shaped g m" using inv t by (simp add: gen_inv_def)
  have al: "alive g row j = grid g ! nat row ! nat j" using row j by (simp add: alive_def)
  let ?v = "next_state g row j"
  let ?m = "m[nat row := (m ! nat row)[nat j := ?v]]"
  have step: "(\<lambda>col (newGrid, g).
            case countNeighbors row col g of
              Inl e \<Rightarrow> Inl e
            | Inr (neighbors, g) \<Rightarrow>
                (case read_cell (grid g) row col of
                   Inl e \<Rightarrow> Inl e
                 | Inr isAlive \<Rightarrow>
                     (case write_cell newGrid row col
                             (if isAlive then neighbors \<in> set (survivalRule g)
                              else neighbors \<in> set (birthRule g)) of
                        Inl e \<Rightarrow> Inl e
                      | Inr newGrid' \<Rightarrow> Inr (newGrid', g)))) j t = Inr (?m, g)"
    using g row j sh al
    by (simp add: t countNeighbors_rectangular read_cell_rectangular write_cell_shaped next_state_def)
  have "gen_inv g row (j + 1) (?m, g)"
    unfolding gen_inv_def
  proof (intro conjI allI impI)
    show "snd (?m, g) = g" by simp
    show "shaped g (fst (?m, g))" using sh by (simp add: shaped_update)
  next
    fix r c
    assume rc: "r < nat (rows g)" "c < nat (cols g)"
      and d: "int r < row \<or> int r = row \<and> int c < j + 1"
    have "?m ! r ! c = (if r = nat row \<and> c = nat j then ?v else m ! r ! c)"
      using sh row j rc by (intro update2_nth) auto
    moreover have "\<not> (r = nat row \<and> c = nat j) \<Longrightarrow> int r < row \<or> int r = row \<and> int c < j"
      using d row j by auto
    moreover have "r = nat row \<and> c = nat j \<Longrightarrow> int r = row \<and> int c = j"
      using row j by auto
    ultimately show "fst (?m, g) ! r ! c = next_state g (int r) (int c)"
      using inv t rc by (auto simp: gen_inv_def)
  qed
  with step show ?thesis by blast
qed

lemma gen_inv_row_done:
  assumes "gen_inv g row (max 0 (cols g)) t"
  shows "gen_inv g (row + 1) 0 t"
  unfolding gen_inv_def
proof (intro conjI allI impI)
  show "snd t = g" "shaped g (fst t)" using assms by (simp_all add: gen_inv_def)
next
  fix r c
  assume rc: "r < nat (rows g)" "c < nat (cols g)" and d: "int r < row + 1 \<or> int r = row + 1 \<and> int c < 0"
  have "int c < max 0 (cols g)" using rc(2) by simp
  with d have "int r < row \<or> int r = row \<and> int c < max 0 (cols g)" by auto
  with assms rc show "fst t ! r ! c = next_state g (int r) (int c)"
    unfolding gen_inv_def by blast
qed

lemma nextGeneration_next_grid:
  assumes g: "rectangular g" and sz: "array_sized g"
  shows "nextGeneration g = Inr (g\<lparr>grid := next_grid g\<rparr>)"
proof -
  let ?inner = "\<lambda>row. for_loop 0 (cols g) (\<lambda>col (newGrid, g).
            case countNeighbors row col g of
              Inl e \<Rightarrow> Inl e
            | Inr (neighbors, g) \<Rightarrow>
                (case read_cell (grid g) row col of
                   Inl e \<Rightarrow> Inl e
                 | Inr isAlive \<Rightarrow>
                     (case write_cell newGrid row col
                             (if isAlive then neighbors \<in> set (survivalRule g)
                              else neighbors \<in> set (birthRule g)) of
                        Inl e \<Rightarrow> Inl e
                      | Inr newGrid' \<Rightarrow> Inr (newGrid', g))))"
  have inner: "\<exists>t'. ?inner row t = Inr t' \<and> gen_inv g (row + 1) 0 t'"
    if row: "0 \<le> row" "row < rows g" and inv: "gen_inv g row 0 t" for row t
  proof -
    have "\<exists>t'. ?inner row t = Inr t' \<and> gen_inv g row (max 0 (cols g)) t'"
      by (rule for_loop_invariant[where I = "gen_inv g row", OF inv])
         (rule gen_inner_step[OF g row], auto)
    then obtain t' where t': "?inner row t = Inr t'" "gen_inv g row (max 0 (cols g)) t'"
      by blast
    have "gen_inv g (row + 1) 0 t'"
      using t'(2) by (rule gen_inv_row_done)
    with t'(1) show ?thesis by blast
  qed
  have start: "gen_inv g 0 0 (empty_grid g, g)"
    by (simp add: gen_inv_def shaped_empty_grid)
  have "\<exists>s'. for_loop 0 (rows g) ?inner (empty_grid g, g) = Inr s' \<and>
          gen_inv g (max 0 (rows g)) 0 s'"
    by (rule for_loop_invariant[where I = "\<lambda>i. gen_inv g i 0", OF start]) (rule inner, auto)
  then obtain m where run: "for_loop 0 (rows g) ?inner (empty_grid g, g) = Inr (m, g)"
    and fin: "gen_inv g (max 0 (rows g)) 0 (m, g)"
    by (auto simp: gen_inv_def)
  have "m = next_grid g"
  proof (rule nth_equalityI)
    show "length m = length (next_grid g)"
      using fin by (simp add: gen_inv_def shaped_def next_grid_def)
  next
    fix r assume r: "r < length m"
    then have r': "r < nat (rows g)" using fin by (simp add: gen_inv_def shaped_def)
    show "m ! r = next_grid g ! r"
    proof (rule nth_equalityI)
      show "length (m ! r) = length (next_grid g ! r)"
        using fin r r' by (simp add: gen_inv_def shaped_def next_grid_def)
    next
      fix c assume "c < length (m ! r)"
      then have c': "c < nat (cols g)" using fin r by (simp add: gen_inv_def shaped_def)
      have "int r < max 0 (rows g)" using r' by simp
      then have "m ! r ! c = next_state g (int r) (int c)"
        using fin r' c' by (simp add: gen_inv_def)
      then show "m ! r ! c = next_grid g ! r ! c"
        using r' c' by (simp add: next_grid_def)
    qed
  qed
  with run show ?thesis by (simp add: nextGeneration_def createEmptyGrid_rectangular[OF g sz])
qed


section \<open>Out-of-bounds coordinates\<close>

text \<open>
  C2. For every engine state and every pair of integers \<open>(row, col)\<close> outside
  \<open>[0, rows) \<times> [0, cols)\<close>, \<^verbatim>\<open>getCell(row, col)\<close> returns \<open>false\<close>, raises no error and
  hands the engine back exactly as it was (grid, rules and dimensions). No assumption on
  the shape of the grid is needed: the guard returns before the grid is read.
\<close>

theorem getCell_out_of_bounds:
  assumes "row < 0 \<or> row \<ge> rows g \<or> col < 0 \<or> col \<ge> cols g"
  shows "getCell row col g = Inr (False, g)"
  using assms by (simp add: getCell_def)

theorem getCell_out_of_bounds_witness:
  "(2::int) \<ge> rows sample \<and> getCell 2 1 sample = Inr (False, sample)"
  using getCell_out_of_bounds [of 2 sample 1] by (simp add: sample_def)

text \<open>
  C4. For every engine state, every boolean and every out-of-bounds coordinate pair,
  \<^verbatim>\<open>setCell\<close> and \<^verbatim>\<open>toggleCell\<close> raise no error and return the engine unchanged
  (every cell, the rules and the dimensions); in particular \<^verbatim>\<open>getPopulation\<close> gives on
  the state after the call what it gives on the state before.
\<close>

theorem setCell_toggleCell_out_of_bounds:
  assumes "row < 0 \<or> row \<ge> rows g \<or> col < 0 \<or> col \<ge> cols g"
  shows "\<exists>g1 g2. setCell row col a g = Inr g1 \<and> toggleCell row col g = Inr g2 \<and>
           g1 = g \<and> g2 = g \<and>
           getPopulation g1 = getPopulation g \<and> getPopulation g2 = getPopulation g"
  using assms by (auto simp: setCell_def toggleCell_def)

theorem setCell_toggleCell_out_of_bounds_witness:
  "(- 1 :: int) < 0 \<and> setCell 0 (- 1) True sample = Inr sample \<and>
   toggleCell 0 (- 1) sample = Inr sample"
  using setCell_toggleCell_out_of_bounds [of 0 sample "- 1" True] by simp

section \<open>The generation step\<close>

lemma rectangular_next_grid: "rectangular (g\<lparr>grid := next_grid g\<rparr>)"
  by (auto simp: rectangular_def next_grid_def)

lemma array_sized_next_grid:
  "rectangular g \<Longrightarrow> array_sized g \<Longrightarrow> array_sized (g\<lparr>grid := next_grid g\<rparr>)"
  by (rule array_sized_same_dims[OF _ _ rectangular_next_grid]) simp_all

lemma alive_next_grid:
  "alive (g\<lparr>grid := next_grid g\<rparr>) row col =
     (0 \<le> row \<and> row < rows g \<and> 0 \<le> col \<and> col < cols g \<and> next_state g row col)"
  by (auto simp: alive_def next_grid_def)

text \<open>
  C1. For every grid (rectangular, and of arrays as JavaScript has them, with fewer than
  \<open>2^32\<close> elements) and every rule configuration, \<^verbatim>\<open>nextGeneration()\<close>
  raises no error and replaces the grid by a grid of the same dimensions, leaving the
  dimensions and the rules as they were. For every cell \<open>(row, col)\<close> of the grid: if
  the cell was alive before the step, it is alive afterwards iff its count of live Moore
  neighbours, taken on the grid before the step with positions outside the grid counted
  as dead (\<open>moore_count\<close>), is in the survival rule; if it was dead, iff that count is in
  the birth rule. The new state is stated over the engine before the step only, so it
  depends on no cell already updated in the same step.
\<close>

theorem nextGeneration_rule:
  assumes "rectangular g" and "array_sized g"
  shows "\<exists>g'. nextGeneration g = Inr g' \<and>
           rows g' = rows g \<and> cols g' = cols g \<and> rectangular g' \<and> array_sized g' \<and>
           map length (grid g') = map length (grid g) \<and>
           birthRule g' = birthRule g \<and> survivalRule g' = survivalRule g \<and>
           (\<forall>row col. 0 \<le> row \<and> row < rows g \<and> 0 \<le> col \<and> col < cols g \<longrightarrow>
              getCell row col g' =
                Inr (if alive g row col then moore_count g row col \<in> set (survivalRule g)
                     else moore_count g row col \<in> set (birthRule g), g'))"
proof -
  let ?g' = "g\<lparr>grid := next_grid g\<rparr>"
  have run: "nextGeneration g = Inr ?g'"
    using assms by (rule nextGeneration_next_grid)
  have rect: "rectangular ?g'" by (rule rectangular_next_grid)
  have sized: "array_sized ?g'" using assms by (rule array_sized_next_grid)
  have lens: "map length (grid ?g') = map length (grid g)"
  proof -
    have "map length (grid g) = replicate (nat (rows g)) (nat (cols g))"
      using assms(1) by (auto simp: rectangular_def intro!: replicate_eqI)
    moreover have "map length (next_grid g) = replicate (nat (rows g)) (nat (cols g))"
      by (auto simp: next_grid_def intro!: replicate_eqI)
    ultimately show ?thesis by simp
  qed
  have cells: "getCell row col ?g' =
                Inr (if alive g row col then moore_count g row col \<in> set (survivalRule g)
                     else moore_count g row col \<in> set (birthRule g), ?g')"
    if "0 \<le> row \<and> row < rows g \<and> 0 \<le> col \<and> col < cols g" for row col
    using that by (simp add: getCell_rectangular[OF rect] alive_next_grid next_state_def)
  show ?thesis
    using run rect sized lens cells by (intro exI[of _ ?g']) simp
qed

theorem nextGeneration_rule_witness:
  "rectangular sample \<and> array_sized sample \<and>
   (\<exists>g'. nextGeneration sample = Inr g' \<and> getCell 0 1 g' = Inr (True, g') \<and>
      getCell 0 0 g' = Inr (False, g'))"
proof -
  have r: "rectangular sample" "array_sized sample"
    by (simp_all add: sample_def rectangular_def array_sized_def)
  have a: "\<not> alive sample 0 1" "alive sample 0 0" by (simp_all add: sample_def alive_def)
  have m: "moore_count sample 0 1 = 3" "moore_count sample 0 0 = 1"
    by code_simp+
  from nextGeneration_rule [OF r] obtain g' where g': "nextGeneration sample = Inr g'"
    and c: "\<forall>row col. 0 \<le> row \<and> row < rows sample \<and> 0 \<le> col \<and> col < cols sample \<longrightarrow>
              getCell row col g' =
                Inr (if alive sample row col then moore_count sample row col \<in> set (survivalRule sample)
                     else moore_count sample row col \<in> set (birthRule sample), g')"
    by blast
  have "getCell 0 1 g' = Inr (True, g')"
    using c[rule_format, of 0 1] a m by (simp add: sample_def)
  moreover have "getCell 0 0 g' = Inr (False, g')"
    using c[rule_format, of 0 0] a m by (simp add: sample_def)
  ultimately show ?thesis using r g' by blast
qed

lemma alive_cong:
  assumes "rectangular g1" "rectangular g2" "grid g1 = grid g2"
  shows "alive g1 row col = alive g2 row col"
proof -
  have "alive b row col" if "alive a row col" "rectangular a" "rectangular b" "grid a = grid b" for a b
  proof -
    from that(1) have in_a: "0 \<le> row" "row < rows a" "0 \<le> col" "col < cols a"
      and v: "grid a ! nat row ! nat col" by (simp_all add: alive_def)
    have "nat row < length (grid a)" using in_a that(2) by (simp add: rectangular_def)
    then have rb: "nat row < nat (rows b)" and mem: "grid b ! nat row \<in> set (grid b)"
      using that(3,4) by (simp_all add: rectangular_def)
    have "length (grid a ! nat row) = nat (cols a)"
      using that(2) \<open>nat row < length (grid a)\<close> by (simp add: rectangular_def)
    moreover have "length (grid b ! nat row) = nat (cols b)"
      using that(3) mem by (simp add: rectangular_def)
    ultimately have "nat (cols a) = nat (cols b)" using that(4) by simp
    then have "col < cols b" using in_a by linarith
    moreover have "row < rows b" using rb by linarith
    ultimately show ?thesis using in_a v that(4) by (simp add: alive_def)
  qed
  from this[of g1 g2] this[of g2 g1] assms show ?thesis by auto
qed

lemma next_grid_cong:
  assumes "rectangular g1" "rectangular g2" "grid g1 = grid g2"
    and "set (birthRule g1) = set (birthRule g2)"
    and "set (survivalRule g1) = set (survivalRule g2)"
  shows "next_grid g1 = next_grid g2"
proof -
  have al: "alive g1 = alive g2"
    using alive_cong[OF assms(1-3)] by (intro ext)
  have st: "next_state g1 = next_state g2"
    using assms(4,5) by (intro ext) (simp add: next_state_def moore_count_def al)
  have nr: "nat (rows g1) = nat (rows g2)"
    using assms(1-3) by (simp add: rectangular_def)
  show ?thesis
  proof (cases "grid g1 = []")
    case True
    then have "nat (rows g1) = 0" "nat (rows g2) = 0"
      using assms(1-3) by (simp_all add: rectangular_def)
    then show ?thesis by (simp add: next_grid_def)
  next
    case False
    then have "hd (grid g1) \<in> set (grid g1)" by simp
    then have "nat (cols g1) = nat (cols g2)"
      using assms(1-3) by (auto simp: rectangular_def)
    with nr st show ?thesis by (simp add: next_grid_def)
  qed
qed

text \<open>
  C9. The generation step is a function of the grid and the rules alone: two rectangular
  engines that hold the same grid (of arrays as JavaScript has them) and rule sets with
  the same elements both complete the step and end with identical grids. The model of \<^verbatim>\<open>nextGeneration\<close> reads nothing but
  the fields of the engine, as the source reads nothing else (no random source, no
  counter).
\<close>

theorem nextGeneration_deterministic:
  assumes "rectangular g1" and "rectangular g2"
    and "grid g1 = grid g2"
    and "set (birthRule g1) = set (birthRule g2)"
    and "set (survivalRule g1) = set (survivalRule g2)"
    and "array_sized g1"
  shows "\<exists>g1' g2'. nextGeneration g1 = Inr g1' \<and> nextGeneration g2 = Inr g2' \<and>
           grid g1' = grid g2'"
proof -
  have "array_sized g2" using assms(3,6) by (simp add: array_sized_def)
  then show ?thesis
    using next_grid_cong [OF assms(1-5)] assms(1,2,6) by (simp add: nextGeneration_next_grid)
qed

theorem nextGeneration_deterministic_witness:
  "rectangular sample \<and> rectangular (sample\<lparr>survivalRule := [3, 2]\<rparr>) \<and>
   array_sized sample \<and>
   (\<exists>g1' g2'. nextGeneration sample = Inr g1' \<and>
      nextGeneration (sample\<lparr>survivalRule := [3, 2]\<rparr>) = Inr g2' \<and> grid g1' = grid g2')"
proof -
  have r: "rectangular sample" "rectangular (sample\<lparr>survivalRule := [3, 2]\<rparr>)"
    by (simp_all add: sample_def rectangular_def)
  have z: "array_sized sample" by (simp add: sample_def array_sized_def)
  have same: "grid sample = grid (sample\<lparr>survivalRule := [3, 2]\<rparr>)"
    "set (birthRule sample) = set (birthRule (sample\<lparr>survivalRule := [3, 2]\<rparr>))"
    "set (survivalRule sample) = set (survivalRule (sample\<lparr>survivalRule := [3, 2]\<rparr>))"
    by (auto simp: sample_def)
  show ?thesis
    using r z nextGeneration_deterministic [OF r same z] by simp
qed

section \<open>Population\<close>

lemma pop_inner_step:
  assumes g: "rectangular g" and row: "0 \<le> row" "row < rows g" and j: "0 \<le> j" "j < cols g"
    and inv: "pop_inv g row j t"
  shows "\<exists>t'. (\<lambda>col (count, g).
         case read_cell (grid g) row col of
           Inl e \<Rightarrow> Inl e
         | Inr b \<Rightarrow> Inr (if b then count + 1 else count, g)) j t = Inr t' \<and>
         pop_inv g row (j + 1) t'"
proof -
  obtain n where t: "t = (n, g)" using inv by (cases t) (simp add: pop_inv_def)
  have len: "nat j < length (grid g ! nat row)"
    using g row j by (simp add: rectangular_def)
  have "take (nat (j + 1)) (grid g ! nat row) =
          take (nat j) (grid g ! nat row) @ [grid g ! nat row ! nat j]"
    using len j by (simp add: nat_add_distrib take_Suc_conv_app_nth)
  then have "live_in (take (nat (j + 1)) (grid g ! nat row)) =
          live_in (take (nat j) (grid g ! nat row)) + (if grid g ! nat row ! nat j then 1 else 0)"
    by (simp add: live_in_def)
  then show ?thesis
    using inv g row j by (simp add: t pop_inv_def read_cell_rectangular)
qed

lemma pop_row_done:
  assumes g: "rectangular g" and row: "0 \<le> row" "row < rows g"
    and inv: "pop_inv g row (max 0 (cols g)) t"
  shows "pop_inv g (row + 1) 0 t"
proof -
  have len: "nat row < length (grid g)" using g row by (simp add: rectangular_def)
  then have "length (grid g ! nat row) = nat (cols g)" using g by (simp add: rectangular_def)
  then have full: "take (nat (max 0 (cols g))) (grid g ! nat row) = grid g ! nat row"
    by simp
  have "take (nat (row + 1)) (grid g) = take (nat row) (grid g) @ [grid g ! nat row]"
    using len row by (simp add: nat_add_distrib take_Suc_conv_app_nth)
  then show ?thesis
    using inv full by (simp add: pop_inv_def live_in_def)
qed

lemma getPopulation_rectangular:
  assumes g: "rectangular g"
  shows "getPopulation g = Inr (population g, g)"
proof -
  let ?inner = "\<lambda>row. for_loop 0 (cols g) (\<lambda>col (count, g).
         case read_cell (grid g) row col of
           Inl e \<Rightarrow> Inl e
         | Inr b \<Rightarrow> Inr (if b then count + 1 else count, g))"
  have inner: "\<exists>t'. ?inner row t = Inr t' \<and> pop_inv g (row + 1) 0 t'"
    if row: "0 \<le> row" "row < rows g" and inv: "pop_inv g row 0 t" for row t
  proof -
    have "\<exists>t'. ?inner row t = Inr t' \<and> pop_inv g row (max 0 (cols g)) t'"
      by (rule for_loop_invariant[where I = "pop_inv g row", OF inv])
         (rule pop_inner_step[OF g row], auto)
    then show ?thesis using pop_row_done[OF g row] by blast
  qed
  have start: "pop_inv g 0 0 (0, g)"
    by (simp add: pop_inv_def live_in_def)
  have "\<exists>s'. for_loop 0 (rows g) ?inner (0, g) = Inr s' \<and> pop_inv g (max 0 (rows g)) 0 s'"
    by (rule for_loop_invariant[where I = "\<lambda>i. pop_inv g i 0", OF start]) (rule inner, auto)
  then obtain s' where run: "for_loop 0 (rows g) ?inner (0, g) = Inr s'"
    and fin: "pop_inv g (max 0 (rows g)) 0 s'"
    by blast
  have "take (nat (max 0 (rows g))) (grid g) = grid g"
    using g by (simp add: rectangular_def)
  then have "s' = (population g, g)"
    using fin by (cases s') (simp add: pop_inv_def population_def live_in_def)
  with run show ?thesis by (simp add: getPopulation_def)
qed

lemma rectangular_fresh: "rectangular (fresh r c)"
  by (simp add: rectangular_def fresh_def)

lemma array_sized_fresh:
  "r < 2 ^ 32 \<Longrightarrow> (0 < r \<Longrightarrow> c < 2 ^ 32) \<Longrightarrow> array_sized (fresh r c)"
  by (cases "0 < r") (auto simp: array_sized_def fresh_def)

lemma rectangular_GameOfLife: "GameOfLife r c = Inr g \<Longrightarrow> rectangular g"
  using rectangular_fresh[of r c] by (auto simp: GameOfLife_eq split: if_splits)

lemma array_sized_GameOfLife: "GameOfLife r c = Inr g \<Longrightarrow> array_sized g"
  using array_sized_fresh[of r c] by (auto simp: GameOfLife_eq split: if_splits)

lemma population_fresh: "population (fresh r c) = 0"
  by (simp add: population_def fresh_def live_in_def)

lemma alive_fresh: "\<not> alive (fresh r c) row col"
  by (simp add: alive_def fresh_def)

section \<open>Toggling a cell\<close>

lemma toggleCell_rectangular:
  assumes "rectangular g" "0 \<le> row" "row < rows g" "0 \<le> col" "col < cols g"
  shows "toggleCell row col g =
           Inr (g\<lparr>grid := (grid g)[nat row := (grid g ! nat row)[nat col := \<not> grid g ! nat row ! nat col]]\<rparr>)"
proof -
  have "shaped g (grid g)" using assms(1) by (simp add: shaped_def rectangular_def)
  then show ?thesis
    using assms by (simp add: toggleCell_def read_cell_rectangular write_cell_shaped)
qed

lemma rectangular_update:
  "rectangular g \<Longrightarrow> rectangular (g\<lparr>grid := (grid g)[r := (grid g ! r)[c := v]]\<rparr>)"
  using shaped_update[of g "grid g" r c v] by (simp add: shaped_def rectangular_def)

lemma alive_update:
  assumes "rectangular g" "0 \<le> row" "row < rows g" "0 \<le> col" "col < cols g"
  shows "alive (g\<lparr>grid := (grid g)[nat row := (grid g ! nat row)[nat col := v]]\<rparr>) r c =
           (if r = row \<and> c = col then v else alive g r c)"
proof (cases "0 \<le> r \<and> r < rows g \<and> 0 \<le> c \<and> c < cols g")
  case False
  then show ?thesis using assms by (auto simp: alive_def)
next
  case True
  have "shaped g (grid g)" using assms(1) by (simp add: shaped_def rectangular_def)
  then have "(grid g)[nat row := (grid g ! nat row)[nat col := v]] ! nat r ! nat c =
          (if nat r = nat row \<and> nat c = nat col then v else grid g ! nat r ! nat c)"
    using assms True by (intro update2_nth) auto
  moreover have "(nat r = nat row \<and> nat c = nat col) = (r = row \<and> c = col)"
    using assms True by auto
  ultimately show ?thesis using True by (simp add: alive_def)
qed

text \<open>
  C8. For every (rectangular) engine and every in-bounds coordinate pair, a call of
  \<^verbatim>\<open>toggleCell(row, col)\<close> completes and a second call on its result gives back exactly
  the original engine. A single call leaves dimensions and rules alone, negates what
  \<^verbatim>\<open>getCell\<close> reports at \<open>(row, col)\<close> and leaves what it reports at every other
  coordinate unchanged.
\<close>

theorem toggleCell_twice:
  assumes "rectangular g" and "0 \<le> row" and "row < rows g" and "0 \<le> col" and "col < cols g"
  shows "\<exists>g1. toggleCell row col g = Inr g1 \<and> toggleCell row col g1 = Inr g \<and>
           rows g1 = rows g \<and> cols g1 = cols g \<and>
           birthRule g1 = birthRule g \<and> survivalRule g1 = survivalRule g \<and>
           (\<forall>r c. \<exists>b. getCell r c g = Inr (b, g) \<and>
              getCell r c g1 = Inr (if r = row \<and> c = col then \<not> b else b, g1))"
proof -
  let ?b = "grid g ! nat row ! nat col"
  let ?g1 = "g\<lparr>grid := (grid g)[nat row := (grid g ! nat row)[nat col := \<not> ?b]]\<rparr>"
  have r1: "rectangular ?g1" using assms(1) by (rule rectangular_update)
  have in_range: "nat row < length (grid g)" "nat col < length (grid g ! nat row)"
    using assms by (simp_all add: rectangular_def)
  have t1: "toggleCell row col g = Inr ?g1"
    using assms by (rule toggleCell_rectangular)
  have restored: "(grid ?g1)[nat row := (grid ?g1 ! nat row)[nat col := \<not> grid ?g1 ! nat row ! nat col]] = grid g"
    using in_range by (simp add: list_update_same_conv)
  have "toggleCell row col ?g1 =
          Inr (?g1\<lparr>grid := (grid ?g1)[nat row := (grid ?g1 ! nat row)[nat col := \<not> grid ?g1 ! nat row ! nat col]]\<rparr>)"
    using r1 assms(2-5) by (intro toggleCell_rectangular) simp_all
  then have t2: "toggleCell row col ?g1 = Inr g"
    by (simp only: restored) simp
  have cells: "\<exists>b. getCell r c g = Inr (b, g) \<and>
              getCell r c ?g1 = Inr (if r = row \<and> c = col then \<not> b else b, ?g1)" for r c
  proof -
    have "alive g row col = ?b" using assms by (simp add: alive_def)
    then have "alive ?g1 r c = (if r = row \<and> c = col then \<not> alive g r c else alive g r c)"
      using alive_update[OF assms, of "\<not> ?b" r c] by auto
    then show ?thesis
      using getCell_rectangular[OF assms(1), of r c] getCell_rectangular[OF r1, of r c] by simp
  qed
  show ?thesis
    using t1 t2 cells by (intro exI[of _ ?g1]) simp
qed

theorem toggleCell_twice_witness:
  "rectangular sample \<and> (0::int) \<le> 1 \<and> 1 < rows sample \<and> (0::int) \<le> 2 \<and> 2 < cols sample \<and>
   (\<exists>g1. toggleCell 1 2 sample = Inr g1 \<and> toggleCell 1 2 g1 = Inr sample)"
proof -
  have h: "rectangular sample" "(0::int) \<le> 1" "1 < rows sample" "(0::int) \<le> 2" "2 < cols sample"
    by (simp_all add: sample_def rectangular_def)
  from toggleCell_twice [OF h] obtain g1
    where "toggleCell 1 2 sample = Inr g1" "toggleCell 1 2 g1 = Inr sample" by blast
  with h show ?thesis by blast
qed

section \<open>Reading the rules back\<close>

lemma new_Set_set: "set (new_Set acc xs) = set acc \<union> set xs"
  by (induction xs arbitrary: acc) auto

lemma new_Set_distinct: "distinct acc \<Longrightarrow> distinct (new_Set acc xs)"
  by (induction xs arbitrary: acc) auto

lemma digit_char_code: "d < 10 \<Longrightarrow> (of_char (digit_char d) :: nat) = 48 + d"
proof -
  assume "d < 10"
  then have "d = 0 \<or> d = 1 \<or> d = 2 \<or> d = 3 \<or> d = 4 \<or> d = 5 \<or> d = 6 \<or> d = 7 \<or> d = 8 \<or> d = 9"
    by auto
  then show ?thesis by (auto simp: digit_char_def)
qed

lemma decimal_digit: "n < 10 \<Longrightarrow> decimal n = [digit_char n]"
  by (subst decimal.simps) simp

lemma those_Number_toString:
  "\<forall>x \<in> set xs. x < 2 ^ 53 \<Longrightarrow> those (map Number_toString xs) = Some (map decimal xs)"
  by (induction xs) (simp_all add: Number_toString_def)

lemma string_less_digits:
  assumes "x < 10" and "y < 10"
  shows "string_less [digit_char x] [digit_char y] = (x < y)"
proof (cases "x = y")
  case True
  then show ?thesis by simp
next
  case False
  have "(of_char (digit_char x) :: nat) \<noteq> of_char (digit_char y)"
    using False by (simp only: digit_char_code[OF assms(1)] digit_char_code[OF assms(2)])
  then have "digit_char x \<noteq> digit_char y" by auto
  then have "string_less [digit_char x] [digit_char y] =
          ((of_char (digit_char x) :: nat) < of_char (digit_char y))"
    by simp
  also have "\<dots> = (x < y)"
    by (simp only: digit_char_code[OF assms(1)] digit_char_code[OF assms(2)]) simp
  finally show ?thesis .
qed

lemma SortCompare_single_digits:
  assumes "x < 10" and "y < 10"
  shows "(SortCompare (decimal x) (decimal y) \<le> 0) = (x \<le> y)"
proof -
  have "SortCompare (decimal x) (decimal y) = (if x < y then - 1 else if y < x then 1 else 0)"
    by (simp only: SortCompare_def decimal_digit[OF assms(1)]
        decimal_digit[OF assms(2)] string_less_digits[OF assms]
        string_less_digits[OF assms(2,1)])
  then show ?thesis by auto
qed

lemma sort_insert_single_digits:
  "x < 10 \<Longrightarrow> \<forall>y \<in> set ys. y < 10 \<Longrightarrow>
   sort_insert (decimal x, x) (map (\<lambda>y. (decimal y, y)) ys) =
     map (\<lambda>y. (decimal y, y)) (insort x ys)"
  by (induction ys) (simp_all add: SortCompare_single_digits)

lemma foldr_sort_insert_single_digits:
  "\<forall>x \<in> set xs. x < 10 \<Longrightarrow>
   foldr sort_insert (map (\<lambda>y. (decimal y, y)) xs) [] = map (\<lambda>y. (decimal y, y)) (sort xs)"
proof (induction xs)
  case Nil
  then show ?case by simp
next
  case (Cons x xs)
  then have "foldr sort_insert (map (\<lambda>y. (decimal y, y)) (x # xs)) [] =
          sort_insert (decimal x, x) (map (\<lambda>y. (decimal y, y)) (sort xs))"
    by simp
  also have "\<dots> = map (\<lambda>y. (decimal y, y)) (insort x (sort xs))"
    using Cons.prems by (intro sort_insert_single_digits) simp_all
  finally show ?case by simp
qed

lemma Array_sort_single_digits:
  assumes "\<forall>x \<in> set xs. x < 10"
  shows "Array_sort xs = Some (sort xs)"
proof -
  have "\<forall>x \<in> set xs. x < 2 ^ 53" using assms by auto
  then have "those (map Number_toString xs) = Some (map decimal xs)"
    by (rule those_Number_toString)
  moreover have "zip (map decimal xs) xs = map (\<lambda>y. (decimal y, y)) xs"
    by (induction xs) simp_all
  ultimately show ?thesis
    by (simp add: Array_sort_def foldr_sort_insert_single_digits[OF assms] comp_def)
qed

text \<open>
  Where every count is a single digit, the string order and the numeric order agree,
  and the getters return the distinct counts in ascending order.
\<close>

lemma getBirthRule_single_digits:
  assumes "\<forall>x \<in> set counts. x < 10"
  shows "getBirthRule (g\<lparr>birthRule := new_Set [] counts\<rparr>) =
           Some (Inr (sorted_list_of_set (set counts), g\<lparr>birthRule := new_Set [] counts\<rparr>))"
proof -
  have "Array_sort (new_Set [] counts) = Some (sort (new_Set [] counts))"
    using assms by (intro Array_sort_single_digits) (simp add: new_Set_set)
  moreover have "sort (new_Set [] counts) = sorted_list_of_set (set counts)"
    using new_Set_distinct[of "[]" counts]
    by (intro sorted_distinct_set_unique) (simp_all add: new_Set_set)
  ultimately show ?thesis by (simp add: getBirthRule_def)
qed

text \<open>
  C3. The claim is that after \<^verbatim>\<open>setBirthRule(counts)\<close> (respectively
  \<^verbatim>\<open>setSurvivalRule\<close>) the getter returns the distinct counts in numerically ascending
  order, also for counts above 8. The code sorts by string: on a new 3 by 3 engine, after
  \<^verbatim>\<open>setBirthRule([10, 9, 10])\<close> the getter returns \<open>[10, 9]\<close>, because \<open>''10''\<close> is
  smaller than \<open>''9''\<close> as a string, where the ascending order is \<open>[9, 10]\<close>. The same
  holds for the survival rule.
\<close>

theorem getBirthRule_orders_by_string:
  "GameOfLife 3 3 = Inr (fresh 3 3) \<and>
   setBirthRule [10, 9, 10] (fresh 3 3) = Inr ((fresh 3 3)\<lparr>birthRule := [10, 9]\<rparr>) \<and>
   getBirthRule ((fresh 3 3)\<lparr>birthRule := [10, 9]\<rparr>) =
     Some (Inr ([10, 9], (fresh 3 3)\<lparr>birthRule := [10, 9]\<rparr>)) \<and>
   setSurvivalRule [10, 9, 10] (fresh 3 3) =
     Inr ((fresh 3 3)\<lparr>survivalRule := [10, 9]\<rparr>) \<and>
   getSurvivalRule ((fresh 3 3)\<lparr>survivalRule := [10, 9]\<rparr>) =
     Some (Inr ([10, 9], (fresh 3 3)\<lparr>survivalRule := [10, 9]\<rparr>)) \<and>
   sorted_list_of_set (set [10, 9, 10 :: nat]) = [9, 10]"
proof -
  have s: "decimal 10 = ''10''" "decimal 9 = ''9''"
    by (simp_all add: decimal.simps digit_char_def)
  have "Array_sort [10, 9] = Some [10, 9]"
    by (simp add: Array_sort_def Number_toString_def SortCompare_def s)
  moreover have "sorted_list_of_set (set [10, 9, 10 :: nat]) = [9, 10]"
    unfolding sorted_list_of_set_sort_remdups by simp
  moreover have "GameOfLife 3 3 = Inr (fresh 3 3)"
    by (simp add: GameOfLife_eq)
  ultimately show ?thesis
    by (simp add: setBirthRule_def setSurvivalRule_def getBirthRule_def getSurvivalRule_def
        fresh_def)
qed

section \<open>A fresh engine\<close>

text \<open>
  C7. The claim speaks of every pair of positive integers, but the constructor raises a
  RangeError when a dimension is \<open>2^32\<close> or more, since no array can be that long. For
  every pair of positive integers \<open>r\<close> and \<open>c\<close> below \<open>2^32\<close>, the constructor returns an
  engine with dimensions \<open>r\<close> and \<open>c\<close> and a grid of \<open>r\<close> rows of \<open>c\<close> cells each, all
  dead: \<^verbatim>\<open>getCell\<close> returns \<open>false\<close> at every in-bounds coordinate and \<^verbatim>\<open>getPopulation\<close>
  returns 0, neither raising an error; the birth rule is exactly \<open>{3}\<close> and the survival
  rule exactly \<open>{2, 3}\<close>, and the two getters return \<open>[3]\<close> and \<open>[2, 3]\<close>.
\<close>

theorem GameOfLife_fresh:
  assumes "0 < r" and "0 < c" and "r < 2 ^ 32" and "c < 2 ^ 32"
  shows "\<exists>g. GameOfLife r c = Inr g \<and> rows g = r \<and> cols g = c \<and>
           grid g = replicate (nat r) (replicate (nat c) False) \<and>
           (\<forall>row col. 0 \<le> row \<and> row < r \<and> 0 \<le> col \<and> col < c \<longrightarrow>
              getCell row col g = Inr (False, g)) \<and>
           getPopulation g = Inr (0, g) \<and>
           set (birthRule g) = {3} \<and>
           set (survivalRule g) = {2, 3} \<and>
           getBirthRule g = Some (Inr ([3], g)) \<and>
           getSurvivalRule g = Some (Inr ([2, 3], g))"
proof -
  let ?g = "fresh r c"
  have made: "GameOfLife r c = Inr ?g"
    using assms by (simp add: GameOfLife_eq)
  have rect: "rectangular ?g"
    by (rule rectangular_fresh)
  have rules: "birthRule ?g = [3]" "survivalRule ?g = [2, 3]"
    by (simp_all add: fresh_def)
  have "Array_sort [3] = Some (sort [3])" "Array_sort [2, 3] = Some (sort [2, 3])"
    by (rule Array_sort_single_digits; simp)+
  then have sorted: "Array_sort [3] = Some [3]" "Array_sort [2, 3] = Some [2, 3]"
    by simp_all
  have getters: "getBirthRule ?g = Some (Inr ([3], ?g))"
    "getSurvivalRule ?g = Some (Inr ([2, 3], ?g))"
    by (simp_all add: getBirthRule_def getSurvivalRule_def rules sorted)
  have cells: "getCell row col ?g = Inr (False, ?g)" for row col
    using getCell_rectangular[OF rect, of row col] by (simp add: alive_fresh)
  have pop: "getPopulation ?g = Inr (0, ?g)"
    using getPopulation_rectangular[OF rect] by (simp add: population_fresh)
  have fields: "rows ?g = r" "cols ?g = c"
    "grid ?g = replicate (nat r) (replicate (nat c) False)"
    by (simp_all add: fresh_def)
  show ?thesis
    using made cells pop fields getters by (intro exI[of _ ?g]) (simp add: rules)
qed

theorem GameOfLife_fresh_witness:
  "(0::int) < 2 \<and> (0::int) < 3 \<and> (2::int) < 2 ^ 32 \<and> (3::int) < 2 ^ 32 \<and>
   (\<exists>g. GameOfLife 2 3 = Inr g \<and>
      grid g = [ [False, False, False], [False, False, False]] \<and>
      getCell 1 2 g = Inr (False, g) \<and>
      getPopulation g = Inr (0, g) \<and>
      getSurvivalRule g = Some (Inr ([2, 3], g)))"
proof -
  have h: "(0::int) < 2" "(0::int) < 3" "(2::int) < 2 ^ 32" "(3::int) < 2 ^ 32" by simp_all
  have shape: "replicate 2 (replicate 3 False) = [ [False, False, False], [False, False, False]]"
    by (simp add: numeral_eq_Suc)
  from GameOfLife_fresh [OF h] obtain g
    where "GameOfLife 2 3 = Inr g" "grid g = replicate (nat 2) (replicate (nat 3) False)"
      "\<forall>row col. 0 \<le> row \<and> row < 2 \<and> 0 \<le> col \<and> col < 3 \<longrightarrow> getCell row col g = Inr (False, g)"
      "getPopulation g = Inr (0, g)" "getSurvivalRule g = Some (Inr ([2, 3], g))"
    by blast
  then have "GameOfLife 2 3 = Inr g \<and>
      grid g = [ [False, False, False], [False, False, False]] \<and>
      getCell 1 2 g = Inr (False, g) \<and>
      getPopulation g = Inr (0, g) \<and>
      getSurvivalRule g = Some (Inr ([2, 3], g))"
    by (simp add: shape)
  then show ?thesis using h by blast
qed

text \<open>
  The claim as it stands fails where a dimension reaches \<open>2^32\<close>: the constructor raises
  a RangeError and there is no engine.
\<close>

theorem GameOfLife_fresh_counterexample:
  "(0::int) < 4294967296 \<and> (0::int) < 1 \<and> GameOfLife 4294967296 1 = Inl RangeError"
  by (simp add: GameOfLife_eq)

section \<open>Stamping patterns\<close>

lemma setCell_rectangular:
  assumes "rectangular g"
  shows "\<exists>g'. setCell row col v g = Inr g' \<and> rectangular g' \<and> (\<exists>m. g' = g\<lparr>grid := m\<rparr>) \<and>
           (\<forall>r c. alive g' r c = (if r = row \<and> c = col \<and> in_bounds g row col then v else alive g r c))"
proof (cases "in_bounds g row col")
  case False
  then have "setCell row col v g = Inr g" by (auto simp: setCell_def in_bounds_def)
  moreover have "g = g\<lparr>grid := grid g\<rparr>" by simp
  ultimately show ?thesis using assms False by metis
next
  case True
  then have b: "0 \<le> row" "row < rows g" "0 \<le> col" "col < cols g"
    by (simp_all add: in_bounds_def)
  let ?g' = "g\<lparr>grid := (grid g)[nat row := (grid g ! nat row)[nat col := v]]\<rparr>"
  have "shaped g (grid g)" using assms by (simp add: shaped_def rectangular_def)
  then have "setCell row col v g = Inr ?g'"
    using b by (simp add: setCell_def write_cell_shaped)
  moreover have "rectangular ?g'" using assms by (rule rectangular_update)
  moreover have "alive ?g' r c = (if r = row \<and> c = col \<and> in_bounds g row col then v else alive g r c)" for r c
    using alive_update[OF assms b, of v r c] True by simp
  ultimately show ?thesis by blast
qed

lemma stamp_inner_step:
  assumes i: "0 \<le> i" "i < int (length pattern)"
    and j: "0 \<le> j" "j < int (length (pattern ! nat i))"
    and inv: "stamp_inv pattern sr sc g i j t"
  shows "\<exists>t'. (\<lambda>col g.
         if pattern ! nat i ! nat col \<noteq> 0
         then setCell (sr + i) (sc + col) True g
         else Inr g) j t = Inr t' \<and> stamp_inv pattern sr sc g i (j + 1) t'"
proof -
  have rt: "rectangular t" and same: "\<exists>m. t = g\<lparr>grid := m\<rparr>"
    and al: "\<And>r c. alive t r c =
         (alive g r c \<or> in_bounds g r c \<and> covered pattern sr sc r c \<and>
          (r - sr < i \<or> r - sr = i \<and> c - sc < j))"
    using inv by (simp_all add: stamp_inv_def)
  have ib: "in_bounds t r c = in_bounds g r c" for r c
    using same by (auto simp: in_bounds_def)
  have here: "covered pattern sr sc (sr + i) (sc + j) = (pattern ! nat i ! nat j \<noteq> 0)"
    using i j by (simp add: covered_def)
  show ?thesis
  proof (cases "pattern ! nat i ! nat j \<noteq> 0")
    case False
    have "stamp_inv pattern sr sc g i (j + 1) t"
      unfolding stamp_inv_def
    proof (intro conjI allI)
      fix r c
      have "\<not> (r - sr = i \<and> c - sc = j \<and> covered pattern sr sc r c)"
      proof
        assume a: "r - sr = i \<and> c - sc = j \<and> covered pattern sr sc r c"
        then have "r = sr + i" "c = sc + j" by auto
        with a here False show False by simp
      qed
      then have "(covered pattern sr sc r c \<and> (r - sr < i \<or> r - sr = i \<and> c - sc < j + 1)) =
            (covered pattern sr sc r c \<and> (r - sr < i \<or> r - sr = i \<and> c - sc < j))"
        by auto
      then show "alive t r c =
         (alive g r c \<or> in_bounds g r c \<and> covered pattern sr sc r c \<and>
          (r - sr < i \<or> r - sr = i \<and> c - sc < j + 1))"
        using al[of r c] by blast
    qed (use rt same in auto)
    with False show ?thesis by simp
  next
    case True
    from setCell_rectangular[OF rt, of "sr + i" "sc + j" True] obtain t'
      where run: "setCell (sr + i) (sc + j) True t = Inr t'" and rt': "rectangular t'"
        and same': "\<exists>m. t' = t\<lparr>grid := m\<rparr>"
        and al': "\<And>r c. alive t' r c =
            (if r = sr + i \<and> c = sc + j \<and> in_bounds t (sr + i) (sc + j) then True else alive t r c)"
      by blast
    have "stamp_inv pattern sr sc g i (j + 1) t'"
      unfolding stamp_inv_def
    proof (intro conjI allI)
      show "rectangular t'" by (rule rt')
      show "\<exists>m. t' = g\<lparr>grid := m\<rparr>" using same same' by auto
    next
      fix r c
      have split: "(r - sr = i \<and> c - sc < j + 1) = (r - sr = i \<and> c - sc < j \<or> r = sr + i \<and> c = sc + j)"
        by auto
      have "r = sr + i \<and> c = sc + j \<Longrightarrow> covered pattern sr sc r c"
        using here True by simp
      then show "alive t' r c =
         (alive g r c \<or> in_bounds g r c \<and> covered pattern sr sc r c \<and>
          (r - sr < i \<or> r - sr = i \<and> c - sc < j + 1))"
        unfolding al' al split ib by auto
    qed
    with run True show ?thesis by simp
  qed
qed

lemma stamp_row_done:
  assumes "stamp_inv pattern sr sc g i (max 0 (int (length (pattern ! nat i)))) t"
  shows "stamp_inv pattern sr sc g (i + 1) 0 t"
proof -
  have "(covered pattern sr sc r c \<and> (r - sr < i + 1 \<or> r - sr = i + 1 \<and> c - sc < 0)) =
        (covered pattern sr sc r c \<and>
          (r - sr < i \<or> r - sr = i \<and> c - sc < max 0 (int (length (pattern ! nat i)))))" for r c
    by (auto simp: covered_def)
  then show ?thesis using assms unfolding stamp_inv_def by metis
qed

lemma stamp_rectangular:
  assumes g: "rectangular g"
  shows "\<exists>g'. stamp pattern sr sc g = Inr g' \<and> rectangular g' \<and> (\<exists>m. g' = g\<lparr>grid := m\<rparr>) \<and>
           (\<forall>r c. alive g' r c = (alive g r c \<or> in_bounds g r c \<and> covered pattern sr sc r c))"
proof -
  let ?body = "\<lambda>row col g.
         if pattern ! nat row ! nat col \<noteq> 0
         then setCell (sr + row) (sc + col) True g
         else Inr g"
  let ?inner = "\<lambda>row. for_loop 0 (int (length (pattern ! nat row))) (?body row)"
  have inner: "\<exists>t'. ?inner i t = Inr t' \<and> stamp_inv pattern sr sc g (i + 1) 0 t'"
    if i: "0 \<le> i" "i < int (length pattern)" and inv: "stamp_inv pattern sr sc g i 0 t" for i t
  proof -
    have "\<exists>t'. ?inner i t = Inr t' \<and>
            stamp_inv pattern sr sc g i (max 0 (int (length (pattern ! nat i)))) t'"
      by (rule for_loop_invariant[where I = "stamp_inv pattern sr sc g i", OF inv])
         (rule stamp_inner_step[OF i], auto)
    then show ?thesis using stamp_row_done by blast
  qed
  have "g = g\<lparr>grid := grid g\<rparr>" by simp
  then have "\<exists>m. g = g\<lparr>grid := m\<rparr>" by (rule exI)
  then have start: "stamp_inv pattern sr sc g 0 0 g"
    using g by (auto simp: stamp_inv_def covered_def)
  have "\<exists>s'. for_loop 0 (int (length pattern)) ?inner g = Inr s' \<and>
          stamp_inv pattern sr sc g (max 0 (int (length pattern))) 0 s'"
    by (rule for_loop_invariant[where I = "\<lambda>i. stamp_inv pattern sr sc g i 0", OF start])
       (rule inner, auto)
  then obtain g' where run: "stamp pattern sr sc g = Inr g'"
    and fin: "stamp_inv pattern sr sc g (max 0 (int (length pattern))) 0 g'"
    by (auto simp: stamp_def)
  have "(covered pattern sr sc r c \<and>
          (r - sr < max 0 (int (length pattern)) \<or> r - sr = max 0 (int (length pattern)) \<and> c - sc < 0)) =
        covered pattern sr sc r c" for r c
    by (auto simp: covered_def)
  then have "\<forall>r c. alive g' r c = (alive g r c \<or> in_bounds g r c \<and> covered pattern sr sc r c)"
    using fin unfolding stamp_inv_def by metis
  with run fin show ?thesis by (auto simp: stamp_inv_def)
qed


text \<open>
  C5. For every (rectangular) engine and every offset, \<^verbatim>\<open>addGlider\<close> and
  \<^verbatim>\<open>addGliderGun\<close> complete without error and keep dimensions and rules. Afterwards
  \<^verbatim>\<open>getCell\<close> reports a cell alive exactly when it was alive before or it lies in the
  grid and under a non-zero entry of the pattern (\<open>covered\<close>). So live cells stay alive,
  cells under no live entry keep their state, in-bounds cells under a live entry become
  alive, and entries that fall outside the grid change nothing.
\<close>

theorem stamping_is_union:
  assumes "rectangular g"
  shows "\<exists>g1 g2. addGlider sr sc g = Inr g1 \<and> addGliderGun sr sc g = Inr g2 \<and>
           rectangular g1 \<and> rows g1 = rows g \<and> cols g1 = cols g \<and>
           birthRule g1 = birthRule g \<and> survivalRule g1 = survivalRule g \<and>
           rectangular g2 \<and> rows g2 = rows g \<and> cols g2 = cols g \<and>
           birthRule g2 = birthRule g \<and> survivalRule g2 = survivalRule g \<and>
           (\<forall>r c. \<exists>b. getCell r c g = Inr (b, g) \<and>
              getCell r c g1 = Inr (b \<or> in_bounds g r c \<and> covered glider sr sc r c, g1) \<and>
              getCell r c g2 = Inr (b \<or> in_bounds g r c \<and> covered gun_pattern sr sc r c, g2))"
proof -
  from stamp_rectangular[OF assms, of glider sr sc] obtain g1 m1
    where g1: "addGlider sr sc g = Inr g1" "rectangular g1" "g1 = g\<lparr>grid := m1\<rparr>"
      and a1: "\<And>r c. alive g1 r c = (alive g r c \<or> in_bounds g r c \<and> covered glider sr sc r c)"
    unfolding addGlider_def by blast
  from stamp_rectangular[OF assms, of gun_pattern sr sc] obtain g2 m2
    where g2: "addGliderGun sr sc g = Inr g2" "rectangular g2" "g2 = g\<lparr>grid := m2\<rparr>"
      and a2: "\<And>r c. alive g2 r c = (alive g r c \<or> in_bounds g r c \<and> covered gun_pattern sr sc r c)"
    unfolding addGliderGun_def by blast
  have "\<exists>b. getCell r c g = Inr (b, g) \<and>
              getCell r c g1 = Inr (b \<or> in_bounds g r c \<and> covered glider sr sc r c, g1) \<and>
              getCell r c g2 = Inr (b \<or> in_bounds g r c \<and> covered gun_pattern sr sc r c, g2)" for r c
    using getCell_rectangular[OF assms, of r c] getCell_rectangular[OF g1(2), of r c]
      getCell_rectangular[OF g2(2), of r c]
    by (simp add: a1 a2)
  moreover have "rows g1 = rows g" "cols g1 = cols g" "birthRule g1 = birthRule g"
    "survivalRule g1 = survivalRule g" using g1(3) by simp_all
  moreover have "rows g2 = rows g" "cols g2 = cols g" "birthRule g2 = birthRule g"
    "survivalRule g2 = survivalRule g" using g2(3) by simp_all
  ultimately show ?thesis using g1(1,2) g2(1,2) by blast
qed

theorem stamping_is_union_witness:
  "rectangular sample \<and>
   (\<exists>g1. addGlider 0 1 sample = Inr g1 \<and> getCell 0 0 g1 = Inr (True, g1) \<and>
      getCell 0 2 g1 = Inr (True, g1) \<and> getCell 1 0 g1 = Inr (False, g1))"
proof -
  have r: "rectangular sample" by (simp add: sample_def rectangular_def)
  have before: "getCell 0 0 sample = Inr (True, sample)" "getCell 0 2 sample = Inr (False, sample)"
    "getCell 1 0 sample = Inr (False, sample)"
    by (simp_all add: getCell_def read_cell_def sample_def)
  have cov: "\<not> covered glider 0 1 0 0" "covered glider 0 1 0 2" "\<not> covered glider 0 1 1 0"
    "in_bounds sample 0 2"
    by (simp_all add: covered_def glider_def in_bounds_def sample_def)
  from stamping_is_union [OF r, of 0 1] obtain g1
    where g1: "addGlider 0 1 sample = Inr g1"
      and c: "\<And>r c. \<exists>b. getCell r c sample = Inr (b, sample) \<and>
              getCell r c g1 = Inr (b \<or> in_bounds sample r c \<and> covered glider 0 1 r c, g1)"
    by blast
  have "getCell 0 0 g1 = Inr (True, g1)" using c[of 0 0] before by auto
  moreover have "getCell 0 2 g1 = Inr (True, g1)" using c[of 0 2] before cov by auto
  moreover have "getCell 1 0 g1 = Inr (False, g1)" using c[of 1 0] before cov by auto
  ultimately show ?thesis using r g1 by blast
qed

section \<open>Every reachable engine is rectangular\<close>

text \<open>
  An engine that the constructor returns is rectangular and of arrays below the length
  limit (\<open>rectangular_GameOfLife\<close>, \<open>array_sized_GameOfLife\<close>), and every method that
  changes the engine keeps both, so the assumptions \<open>rectangular g\<close> and
  \<open>array_sized g\<close> of the theorems hold of every engine a caller can obtain.
\<close>

lemma rectangular_preserved:
  assumes "rectangular g" and "array_sized g"
  shows "setCell row col a g = Inr g1 \<Longrightarrow> rectangular g1 \<and> array_sized g1"
    and "toggleCell row col g = Inr g2 \<Longrightarrow> rectangular g2 \<and> array_sized g2"
    and "nextGeneration g = Inr g3 \<Longrightarrow> rectangular g3 \<and> array_sized g3"
    and "clear g = Inr g4 \<Longrightarrow> rectangular g4 \<and> array_sized g4"
    and "addGlider sr sc g = Inr g5 \<Longrightarrow> rectangular g5 \<and> array_sized g5"
    and "addGliderGun sr sc g = Inr g6 \<Longrightarrow> rectangular g6 \<and> array_sized g6"
    and "setBirthRule counts g = Inr g7 \<Longrightarrow> rectangular g7 \<and> array_sized g7"
    and "setSurvivalRule counts g = Inr g8 \<Longrightarrow> rectangular g8 \<and> array_sized g8"
proof -
  have keep: "rectangular (g\<lparr>grid := m\<rparr>) \<Longrightarrow> array_sized (g\<lparr>grid := m\<rparr>)" for m
    by (rule array_sized_same_dims[OF assms]) simp_all
  show "setCell row col a g = Inr g1 \<Longrightarrow> rectangular g1 \<and> array_sized g1"
    using setCell_rectangular[OF assms(1), of row col a] keep by auto
  show "toggleCell row col g = Inr g2 \<Longrightarrow> rectangular g2 \<and> array_sized g2"
    using assms rectangular_update[OF assms(1)] keep
    by (cases "0 \<le> row \<and> row < rows g \<and> 0 \<le> col \<and> col < cols g")
       (auto simp: toggleCell_rectangular, auto simp: toggleCell_def)
  show "nextGeneration g = Inr g3 \<Longrightarrow> rectangular g3 \<and> array_sized g3"
    using rectangular_next_grid[of g] array_sized_next_grid[OF assms]
    by (auto simp: nextGeneration_next_grid[OF assms])
  show "clear g = Inr g4 \<Longrightarrow> rectangular g4 \<and> array_sized g4"
  proof -
    have "rectangular (g\<lparr>grid := empty_grid g\<rparr>)"
      by (simp add: rectangular_def empty_grid_def)
    then show "clear g = Inr g4 \<Longrightarrow> rectangular g4 \<and> array_sized g4"
      using keep by (auto simp: clear_def createEmptyGrid_rectangular[OF assms])
  qed
  show "addGlider sr sc g = Inr g5 \<Longrightarrow> rectangular g5 \<and> array_sized g5"
    using stamp_rectangular[OF assms(1), of glider sr sc] keep by (auto simp: addGlider_def)
  show "addGliderGun sr sc g = Inr g6 \<Longrightarrow> rectangular g6 \<and> array_sized g6"
    using stamp_rectangular[OF assms(1), of gun_pattern sr sc] keep
    by (auto simp: addGliderGun_def)
  show "setBirthRule counts g = Inr g7 \<Longrightarrow> rectangular g7 \<and> array_sized g7"
    using assms by (auto simp: setBirthRule_def rectangular_def array_sized_def)
  show "setSurvivalRule counts g = Inr g8 \<Longrightarrow> rectangular g8 \<and> array_sized g8"
    using assms by (auto simp: setSurvivalRule_def rectangular_def array_sized_def)
qed

section \<open>Engines without cells\<close>

lemma degenerate_grid:
  assumes "rectangular g" and "rows g \<le> 0 \<or> cols g \<le> 0"
  shows "grid g = empty_grid g"
proof (cases "rows g \<le> 0")
  case True
  then show ?thesis using assms(1) by (simp add: rectangular_def empty_grid_def)
next
  case False
  then have c: "nat (cols g) = 0" using assms(2) by simp
  then have "\<forall>x \<in> set (grid g). x = []" using assms(1) by (simp add: rectangular_def)
  then have "replicate (length (grid g)) [] = grid g" by (intro replicate_length_same)
  then show ?thesis using assms(1) c by (simp add: rectangular_def empty_grid_def)
qed

lemma degenerate_same:
  assumes "rectangular g" and "rows g \<le> 0 \<or> cols g \<le> 0"
    and "rectangular (g\<lparr>grid := m\<rparr>)"
  shows "g\<lparr>grid := m\<rparr> = g"
proof -
  have "grid (g\<lparr>grid := m\<rparr>) = empty_grid (g\<lparr>grid := m\<rparr>)"
    using assms(2,3) by (intro degenerate_grid) simp_all
  then have "m = empty_grid g" by (simp add: empty_grid_def)
  then show ?thesis using degenerate_grid[OF assms(1,2)] by simp
qed

text \<open>
  C10. The constructor checks nothing, but the array constructor does: with \<open>c \<le> 0\<close>
  and \<open>r\<close> of \<open>2^32\<close> or more the construction raises a RangeError, against the claim.
  For every \<open>r \<le> 0\<close> or \<open>c \<le> 0\<close> with \<open>r\<close> below \<open>2^32\<close> it returns an engine, and on that
  engine \<^verbatim>\<open>getCell\<close> returns \<open>false\<close> at every coordinate,
  \<^verbatim>\<open>getPopulation\<close> returns 0, and \<^verbatim>\<open>setCell\<close>, \<^verbatim>\<open>toggleCell\<close>, \<^verbatim>\<open>clear\<close>,
  \<^verbatim>\<open>nextGeneration\<close>, \<^verbatim>\<open>addGlider\<close> and \<^verbatim>\<open>addGliderGun\<close> all complete without error
  and return the very same engine, whose population is therefore still 0.
\<close>

theorem GameOfLife_degenerate:
  assumes "r \<le> 0 \<or> c \<le> 0" and "r < 2 ^ 32"
  shows "\<exists>g. GameOfLife r c = Inr g \<and>
           (\<forall>row col. getCell row col g = Inr (False, g)) \<and>
           getPopulation g = Inr (0, g) \<and>
           (\<forall>row col a. setCell row col a g = Inr g) \<and>
           (\<forall>row col. toggleCell row col g = Inr g) \<and>
           clear g = Inr g \<and>
           nextGeneration g = Inr g \<and>
           (\<forall>sr sc. addGlider sr sc g = Inr g) \<and>
           (\<forall>sr sc. addGliderGun sr sc g = Inr g)"
proof -
  let ?g = "fresh r c"
  have made: "GameOfLife r c = Inr ?g"
    using assms by (auto simp: GameOfLife_eq)
  have rect: "rectangular ?g"
    by (rule rectangular_fresh)
  have sized: "array_sized ?g"
    using assms by (intro array_sized_fresh) auto
  have dims: "rows ?g \<le> 0 \<or> cols ?g \<le> 0"
    using assms(1) by (simp add: fresh_def)
  have get: "getCell row col ?g = Inr (False, ?g)" for row col
    using dims by (auto simp: getCell_def)
  have pop: "getPopulation ?g = Inr (0, ?g)"
    using getPopulation_rectangular[OF rect] by (simp add: population_fresh)
  have set: "setCell row col a ?g = Inr ?g" for row col a
    using dims by (auto simp: setCell_def)
  have tog: "toggleCell row col ?g = Inr ?g" for row col
    using dims by (auto simp: toggleCell_def)
  have clr: "clear ?g = Inr ?g"
    using degenerate_grid[OF rect dims]
    by (simp add: clear_def createEmptyGrid_rectangular[OF rect sized])
  have "nextGeneration ?g = Inr (?g\<lparr>grid := next_grid ?g\<rparr>)"
    using rect sized by (rule nextGeneration_next_grid)
  then have nxt: "nextGeneration ?g = Inr ?g"
    using degenerate_same[OF rect dims rectangular_next_grid] by simp
  have stp: "stamp pattern sr sc ?g = Inr ?g" for pattern sr sc
  proof -
    from stamp_rectangular[OF rect, of pattern sr sc] obtain g' m
      where "stamp pattern sr sc ?g = Inr g'" "rectangular g'" "g' = ?g\<lparr>grid := m\<rparr>" by blast
    then show ?thesis using degenerate_same[OF rect dims, of m] by simp
  qed
  show ?thesis
    using made get pop set tog clr nxt stp
    by (intro exI[of _ ?g]) (simp add: addGlider_def addGliderGun_def)
qed

theorem GameOfLife_degenerate_witness:
  "((3::int) \<le> 0 \<or> (- 2 :: int) \<le> 0) \<and> (3::int) < 2 ^ 32 \<and>
   (\<exists>g. GameOfLife 3 (- 2) = Inr g \<and>
      getCell 0 0 g = Inr (False, g) \<and>
      getPopulation g = Inr (0, g) \<and>
      nextGeneration g = Inr g \<and>
      addGliderGun 0 0 g = Inr g)"
proof -
  have h: "(3::int) \<le> 0 \<or> (- 2 :: int) \<le> 0" "(3::int) < 2 ^ 32" by simp_all
  from GameOfLife_degenerate [OF h] obtain g
    where "GameOfLife 3 (- 2) = Inr g" "\<forall>row col. getCell row col g = Inr (False, g)"
      "getPopulation g = Inr (0, g)" "nextGeneration g = Inr g"
      "\<forall>sr sc. addGliderGun sr sc g = Inr g"
    by blast
  then have "GameOfLife 3 (- 2) = Inr g \<and>
      getCell 0 0 g = Inr (False, g) \<and>
      getPopulation g = Inr (0, g) \<and>
      nextGeneration g = Inr g \<and>
      addGliderGun 0 0 g = Inr g"
    by simp
  then show ?thesis using h by blast
qed

text \<open>
  The claim as it stands fails for \<open>cols = 0\<close> and \<open>rows = 2^32\<close>: the outer array cannot
  be built and the constructor raises a RangeError.
\<close>

theorem GameOfLife_degenerate_counterexample:
  "((4294967296::int) \<le> 0 \<or> (0::int) \<le> 0) \<and> GameOfLife 4294967296 0 = Inl RangeError"
  by (simp add: GameOfLife_eq)

section \<open>The glider\<close>

lemma moore_offsets_eq:
  "moore_offsets = [(- 1, - 1), (- 1, 0), (- 1, 1), (0, - 1), (0, 1), (1, - 1), (1, 0), (1, 1)]"
  by (simp add: moore_offsets_def)

lemma conway_far:
  assumes "in_box P" and "r < 0 \<or> 5 < r \<or> c < 0 \<or> 5 < c"
  shows "\<not> conway P r c"
proof -
  have box: "\<And>x y. (x, y) \<in> set P \<Longrightarrow> 1 \<le> x \<and> x \<le> 4 \<and> 1 \<le> y \<and> y \<le> 4"
    using assms(1) by (auto simp: in_box_def list_all_iff)
  have far: "(x, y) \<notin> set P" if "r - 1 \<le> x" "x \<le> r + 1" "c - 1 \<le> y" "y \<le> c + 1" for x y
    using box[of x y] assms(2) that by auto
  have "(r - 1, c - 1) \<notin> set P" "(r - 1, c) \<notin> set P" "(r - 1, c + 1) \<notin> set P"
    "(r, c - 1) \<notin> set P" "(r, c) \<notin> set P" "(r, c + 1) \<notin> set P"
    "(r + 1, c - 1) \<notin> set P" "(r + 1, c) \<notin> set P" "(r + 1, c + 1) \<notin> set P"
    by (rule far; simp)+
  then have "life_count P r c = 0" "(r, c) \<notin> set P"
    by (simp_all add: life_count_def moore_offsets_eq)
  then show ?thesis by (simp add: conway_def)
qed

lemma conway_everywhere:
  assumes "in_box P" and "in_box P'" and "conway_near P P'"
  shows "conway P r c = ((r, c) \<in> set P')"
proof (cases "r < 0 \<or> 5 < r \<or> c < 0 \<or> 5 < c")
  case True
  have "(r, c) \<notin> set P'"
    using assms(2) True by (auto simp: in_box_def list_all_iff)
  then show ?thesis using conway_far[OF assms(1) True] by simp
next
  case False
  then have "r \<in> set [0..5]" "c \<in> set [0..5]" by auto
  then show ?thesis using assms(3) by (auto simp: conway_near_def list_all_iff)
qed

lemma glider_gen1: "conway_near [(1,2),(2,3),(3,1),(3,2),(3,3)] [(2,1),(2,3),(3,2),(3,3),(4,2)]"
  by code_simp

lemma glider_gen2: "conway_near [(2,1),(2,3),(3,2),(3,3),(4,2)] [(2,3),(3,1),(3,3),(4,2),(4,3)]"
  by code_simp

lemma glider_gen3: "conway_near [(2,3),(3,1),(3,3),(4,2),(4,3)] [(2,2),(3,3),(3,4),(4,2),(4,3)]"
  by code_simp

lemma glider_gen4: "conway_near [(2,2),(3,3),(3,4),(4,2),(4,3)] [(2,3),(3,4),(4,2),(4,3),(4,4)]"
  by code_simp


lemma covered_glider:
  "covered glider sr sc r c = ((r - sr, c - sc) \<in> set [(0, 1), (1, 2), (2, 0), (2, 1), (2, 2)])"
proof (cases "0 \<le> r - sr \<and> r - sr < 3 \<and> 0 \<le> c - sc \<and> c - sc < 3")
  case False
  have "length (glider ! nat (r - sr)) = 3" if "0 \<le> r - sr" "r - sr < 3"
  proof -
    from that have "r - sr = 0 \<or> r - sr = 1 \<or> r - sr = 2" by auto
    then show ?thesis by (auto simp: glider_def)
  qed
  with False show ?thesis by (auto simp: covered_def glider_def)
next
  case True
  then have "r - sr = 0 \<or> r - sr = 1 \<or> r - sr = 2" "c - sc = 0 \<or> c - sc = 1 \<or> c - sc = 2"
    by auto
  then show ?thesis by (auto simp: covered_def glider_def)
qed

lemma step_conway:
  assumes rect: "rectangular g" and sized: "array_sized g" and rules: "birthRule g = [3]" "survivalRule g = [2, 3]"
    and al: "\<And>r c. alive g r c = ((r, c) \<in> set P)"
    and box: "in_box P" "in_box P'" and near: "conway_near P P'"
    and big: "5 \<le> rows g" "5 \<le> cols g"
  shows "\<exists>g'. nextGeneration g = Inr g' \<and> rectangular g' \<and> array_sized g' \<and>
           rows g' = rows g \<and> cols g' = cols g \<and> birthRule g' = [3] \<and> survivalRule g' = [2, 3] \<and>
           (\<forall>r c. alive g' r c = ((r, c) \<in> set P'))"
proof -
  let ?g' = "g\<lparr>grid := next_grid g\<rparr>"
  have "moore_count g r c = life_count P r c" for r c
    by (simp add: moore_count_def life_count_def al)
  then have ns: "next_state g r c = conway P r c" for r c
    by (auto simp: next_state_def conway_def al rules)
  have inb: "0 \<le> r \<and> r < rows g \<and> 0 \<le> c \<and> c < cols g" if "(r, c) \<in> set P'" for r c
    using box(2) that big by (auto simp: in_box_def list_all_iff)
  have "alive ?g' r c = ((r, c) \<in> set P')" for r c
    using inb[of r c] by (auto simp: alive_next_grid ns conway_everywhere[OF box near])
  moreover have "nextGeneration g = Inr ?g'" using rect sized by (rule nextGeneration_next_grid)
  moreover have "rectangular ?g'" by (rule rectangular_next_grid)
  moreover have "array_sized ?g'" using rect sized by (rule array_sized_next_grid)
  ultimately show ?thesis using rules by (intro exI[of _ ?g']) simp
qed

text \<open>
  C6. On the empty grid of a new engine of at least 5 rows and 5 columns, under the
  default rules, \<^verbatim>\<open>addGlider(1, 1)\<close> followed by four calls of \<^verbatim>\<open>nextGeneration()\<close>
  completes without error. The stamped grid holds exactly the glider's live entries at offset \<open>(1, 1)\<close>,
  and in the grid after the fourth step the cell \<open>(row, col)\<close> is alive exactly when
  the cell \<open>(row - 1, col - 1)\<close> of the stamped grid was: the same shape moved by
  \<open>(+1, +1)\<close>.
\<close>

theorem glider_translates:
  assumes "5 \<le> r" and "5 \<le> c" and "GameOfLife r c = Inr e"
  shows "\<exists>g0 g1 g2 g3 g4.
           addGlider 1 1 e = Inr g0 \<and>
           nextGeneration g0 = Inr g1 \<and> nextGeneration g1 = Inr g2 \<and>
           nextGeneration g2 = Inr g3 \<and> nextGeneration g3 = Inr g4 \<and>
           (\<forall>row col. getCell row col g0 = Inr (covered glider 1 1 row col, g0)) \<and>
           (\<forall>row col. \<exists>b. getCell (row - 1) (col - 1) g0 = Inr (b, g0) \<and>
              getCell row col g4 = Inr (b, g4))"
proof -
  have e: "e = fresh r c"
    using assms(3) by (auto simp: GameOfLife_eq split: if_splits)
  have rect: "rectangular e"
    using assms(3) by (rule rectangular_GameOfLife)
  have sized: "array_sized e"
    using assms(3) by (rule array_sized_GameOfLife)
  let ?G0 = "[(1, 2), (2, 3), (3, 1), (3, 2), (3, 3)] :: (int \<times> int) list"
  let ?G1 = "[(2, 1), (2, 3), (3, 2), (3, 3), (4, 2)] :: (int \<times> int) list"
  let ?G2 = "[(2, 3), (3, 1), (3, 3), (4, 2), (4, 3)] :: (int \<times> int) list"
  let ?G3 = "[(2, 2), (3, 3), (3, 4), (4, 2), (4, 3)] :: (int \<times> int) list"
  let ?G4 = "[(2, 3), (3, 4), (4, 2), (4, 3), (4, 4)] :: (int \<times> int) list"
  have box: "in_box ?G0" "in_box ?G1" "in_box ?G2" "in_box ?G3" "in_box ?G4"
    by (simp_all add: in_box_def)
  have c0: "covered glider 1 1 row col = ((row, col) \<in> set ?G0)" for row col
    by (auto simp: covered_glider)
  have c4: "covered glider 1 1 (row - 1) (col - 1) = ((row, col) \<in> set ?G4)" for row col
    by (auto simp: covered_glider)
  from stamp_rectangular[OF rect, of glider 1 1] obtain g0 m
    where g0: "addGlider 1 1 e = Inr g0" "rectangular g0" "g0 = e\<lparr>grid := m\<rparr>"
      and a0': "\<And>row col. alive g0 row col =
            (alive e row col \<or> in_bounds e row col \<and> covered glider 1 1 row col)"
    unfolding addGlider_def by blast
  have dims0: "rows g0 = r" "cols g0 = c" "birthRule g0 = [3]" "survivalRule g0 = [2, 3]"
    using g0(3) by (simp_all add: e fresh_def)
  have z0: "array_sized g0"
    using g0(3) by (intro array_sized_same_dims[OF rect sized g0(2)]) simp_all
  have inb0: "in_bounds e row col" if "(row, col) \<in> set ?G0" for row col
    using assms(1,2) that by (auto simp: in_bounds_def e fresh_def)
  have a0: "alive g0 row col = ((row, col) \<in> set ?G0)" for row col
    using a0'[of row col] alive_fresh[of r c row col] c0[of row col] inb0[of row col]
    unfolding e
    by blast
  from step_conway[OF g0(2) z0 dims0(3,4) a0 box(1,2) glider_gen1] assms(1,2) dims0 obtain g1
    where g1: "nextGeneration g0 = Inr g1" "rectangular g1" "rows g1 = r" "cols g1 = c"
      "birthRule g1 = [3]" "survivalRule g1 = [2, 3]" "array_sized g1"
      and a1: "\<And>row col. alive g1 row col = ((row, col) \<in> set ?G1)"
    by auto
  from step_conway[OF g1(2,7,5,6) a1 box(2,3) glider_gen2] assms(1,2) g1 obtain g2
    where g2: "nextGeneration g1 = Inr g2" "rectangular g2" "rows g2 = r" "cols g2 = c"
      "birthRule g2 = [3]" "survivalRule g2 = [2, 3]" "array_sized g2"
      and a2: "\<And>row col. alive g2 row col = ((row, col) \<in> set ?G2)"
    by auto
  from step_conway[OF g2(2,7,5,6) a2 box(3,4) glider_gen3] assms(1,2) g2 obtain g3
    where g3: "nextGeneration g2 = Inr g3" "rectangular g3" "rows g3 = r" "cols g3 = c"
      "birthRule g3 = [3]" "survivalRule g3 = [2, 3]" "array_sized g3"
      and a3: "\<And>row col. alive g3 row col = ((row, col) \<in> set ?G3)"
    by auto
  from step_conway[OF g3(2,7,5,6) a3 box(4,5) glider_gen4] assms(1,2) g3 obtain g4
    where g4: "nextGeneration g3 = Inr g4" "rectangular g4"
      and a4: "\<And>row col. alive g4 row col = ((row, col) \<in> set ?G4)"
    by auto
  have first: "getCell row col g0 = Inr (covered glider 1 1 row col, g0)" for row col
    using getCell_rectangular[OF g0(2), of row col] by (simp only: a0 c0)
  have last: "\<exists>b. getCell (row - 1) (col - 1) g0 = Inr (b, g0) \<and>
              getCell row col g4 = Inr (b, g4)" for row col
    using first[of "row - 1" "col - 1"] getCell_rectangular[OF g4(2), of row col]
    by (simp only: a4 c4) simp
  show ?thesis
    using g0(1) g1(1) g2(1) g3(1) g4(1) first last by blast
qed

theorem glider_translates_witness:
  "(5::int) \<le> 5 \<and> GameOfLife 5 5 = Inr (fresh 5 5) \<and>
   (\<exists>g0 g1 g2 g3 g4.
      addGlider 1 1 (fresh 5 5) = Inr g0 \<and>
      nextGeneration g0 = Inr g1 \<and> nextGeneration g1 = Inr g2 \<and>
      nextGeneration g2 = Inr g3 \<and> nextGeneration g3 = Inr g4 \<and>
      getCell 4 4 g4 = Inr (True, g4) \<and> getCell 1 2 g4 = Inr (False, g4))"
proof -
  have h: "(5::int) \<le> 5" by simp
  have e: "GameOfLife 5 5 = Inr (fresh 5 5)" by (simp add: GameOfLife_eq)
  have cov: "covered glider 1 1 3 3" "\<not> covered glider 1 1 0 1"
    by (simp_all add: covered_glider)
  from glider_translates [OF h h e] obtain g0 g1 g2 g3 g4
    where run: "addGlider 1 1 (fresh 5 5) = Inr g0" "nextGeneration g0 = Inr g1"
      "nextGeneration g1 = Inr g2" "nextGeneration g2 = Inr g3" "nextGeneration g3 = Inr g4"
      and first: "\<And>row col. getCell row col g0 = Inr (covered glider 1 1 row col, g0)"
      and last: "\<And>row col. \<exists>b. getCell (row - 1) (col - 1) g0 = Inr (b, g0) \<and>
              getCell row col g4 = Inr (b, g4)"
    by blast
  have "getCell 4 4 g4 = Inr (True, g4)"
    using last[of 4 4] first[of 3 3] cov by auto
  moreover have "getCell 1 2 g4 = Inr (False, g4)"
    using last[of 1 2] first[of 0 1] cov by auto
  ultimately show ?thesis using run h e by blast
qed

end
